theory Spec2Isabelle
  imports Complex_Main "HOL-Library.AList" "HOL-Library.Multiset"
begin

section \<open>Python string operations used by hsc.py\<close>

text \<open>
  A Python \<open>str\<close> is a sequence of code points. It is modelled as a \<open>string\<close> whose
  characters stand for the code points below 256 (the ASCII and Latin-1 range); no
  encoding is involved, one \<open>char\<close> is one code point.
\<close>

definition isspace :: "char \<Rightarrow> bool" where
  \<comment> \<open>\<open>str.isspace\<close> on one code point: TAB, LF, VT, FF, CR, FS, GS, RS, US, SPACE, NEL, NBSP.\<close>
  "isspace c = (of_char c \<in> {9, 10, 11, 12, 13, 28, 29, 30, 31, 32, 133, 160 :: nat})"

definition lstrip :: "string \<Rightarrow> string" where
  "lstrip s = dropWhile isspace s"

definition rstrip :: "string \<Rightarrow> string" where
  "rstrip s = rev (dropWhile isspace (rev s))"

definition strip :: "string \<Rightarrow> string" where
  \<comment> \<open>\<open>s.strip()\<close>: whitespace removed at both ends.\<close>
  "strip s = rstrip (lstrip s)"

definition lower_char :: "char \<Rightarrow> char" where
  \<comment> \<open>\<open>c.lower()\<close>: A-Z and the Latin-1 capitals (0xC0-0xDE without the multiplication sign).\<close>
  "lower_char c =
     (let n = (of_char c :: nat)
      in if (65 \<le> n \<and> n \<le> 90) \<or> (192 \<le> n \<and> n \<le> 222 \<and> n \<noteq> 215)
         then char_of (n + 32) else c)"

definition lower :: "string \<Rightarrow> string" where
  "lower s = map lower_char s"

definition startswith :: "string \<Rightarrow> string \<Rightarrow> bool" where
  \<comment> \<open>\<open>s.startswith(p)\<close>\<close>
  "startswith s p = (take (length p) s = p)"

function replace :: "string \<Rightarrow> string \<Rightarrow> string \<Rightarrow> string" where
  \<comment> \<open>\<open>s.replace(old, new)\<close>: the occurrences of \<open>old\<close> found from the left, not overlapping.\<close>
  "replace s old new =
     (if old = [] then new @ concat (map (\<lambda>c. c # new) s)
      else if s = [] then []
      else if startswith s old then new @ replace (drop (length old) s) old new
      else hd s # replace (tl s) old new)"
  by pat_completeness auto
termination
  by (relation "measure (\<lambda>(s, old, new). length s)") auto

declare replace.simps [simp del]

definition split_first :: "string \<Rightarrow> char \<Rightarrow> string" where
  \<comment> \<open>\<open>s.split(sep)[0]\<close> for a separator of one character: the text before its first occurrence.\<close>
  "split_first s sep = takeWhile (\<lambda>c. c \<noteq> sep) s"

section \<open>The probe: check_url\<close>

datatype http_method = HEAD | GET

record request =
  meth :: http_method
  target :: string
  timeout :: int
  allow_redirects :: bool
  headers :: "(string \<times> string) list"

text \<open>
  The instances of Python's \<open>Exception\<close> that occur. What \<open>requests.head\<close> and
  \<open>requests.get\<close> raise is among them: a timeout, a connection failure (DNS, refused),
  a TLS failure, a URL that cannot be parsed, or any other \<open>Exception\<close>, named by its class.
\<close>

datatype py_exception =
  Timeout | ConnectionError | SSLError | InvalidURL
  | FileNotFoundError | KeyError | ZeroDivisionError | OverflowError | OtherException string

text \<open>
  What can leave a function of the program: \<open>sys.exit(code)\<close> raises \<open>SystemExit\<close>, which
  like \<open>KeyboardInterrupt\<close> is no \<open>Exception\<close> and passes every \<open>except Exception\<close>.
\<close>

datatype base_exception = SystemExit int | KeyboardInterrupt | Exception py_exception

datatype reply = Response int | Raises py_exception

type_synonym transport = "request \<Rightarrow> reply"

record probe =
  requests :: "request list"
  outcome :: "py_exception + (string \<times> bool)"

definition user_agent :: string where
  "user_agent = ''Mozilla/5.0 (Windows NT 10.0; Win64; x64) AppleWebKit/537.36''"

definition mk_request :: "http_method \<Rightarrow> string \<Rightarrow> int \<Rightarrow> request" where
  \<comment> \<open>\<open>requests.head/get(url, timeout=timeout, allow_redirects=True, headers=headers)\<close>\<close>
  "mk_request m url t =
     \<lparr>meth = m, target = url, timeout = t, allow_redirects = True,
      headers = [(''User-Agent'', user_agent)]\<rparr>"

definition check_url_try :: "transport \<Rightarrow> string \<Rightarrow> int \<Rightarrow> request list \<times> string \<times> (py_exception + (string \<times> bool))" where
  \<comment> \<open>The body of the \<open>try\<close> (lines 33-46): the requests issued, the value of the local
      \<open>url\<close> when the body is left, and the exception raised or the value returned.\<close>
  "check_url_try net url0 t =
     (let url = (if \<not> (startswith url0 ''http://'' \<or> startswith url0 ''https://'')
                 then ''https://'' @ url0 else url0)
      in case net (mk_request HEAD url t) of
           Raises e \<Rightarrow> ([mk_request HEAD url t], url, Inl e)
         | Response status_code \<Rightarrow>
             if status_code \<ge> 400 then
               (case net (mk_request GET url t) of
                  Raises e \<Rightarrow> ([mk_request HEAD url t, mk_request GET url t], url, Inl e)
                | Response status_code' \<Rightarrow>
                    ([mk_request HEAD url t, mk_request GET url t], url,
                     Inr (url, status_code' < 400)))
             else ([mk_request HEAD url t], url, Inr (url, status_code < 400)))"

definition check_url :: "transport \<Rightarrow> string \<Rightarrow> int \<Rightarrow> probe" where
  \<comment> \<open>Lines 28-49. \<open>Inl\<close> in the outcome is an exception leaving \<open>check_url\<close>.\<close>
  "check_url net url t =
     (if lower (strip url) = ''unavailable'' \<or> strip url = []
      then \<lparr>requests = [], outcome = Inr (url, False)\<rparr>
      else case check_url_try net url t of
             (issued, url', Inl e) \<Rightarrow> \<lparr>requests = issued, outcome = Inr (url', False)\<rparr>
           | (issued, url', Inr r) \<Rightarrow> \<lparr>requests = issued, outcome = Inr r\<rparr>)"

section \<open>One platform: check_platform_links\<close>

record link_result =
  url :: string
  status :: string

record platform_result =
  platform :: string
  total_n :: int
  active :: int
  error :: int
  links :: "link_result list"

function as_completed :: "(nat \<Rightarrow> nat) \<Rightarrow> 'a list \<Rightarrow> 'a list" where
  \<comment> \<open>\<open>as_completed(futures)\<close> yields every future once, in the order of completion. Which of
      the futures still pending completes next is chosen by \<open>sched\<close>, so every order arises.\<close>
  "as_completed sched pending =
     (if pending = [] then []
      else let i = sched (length pending) mod length pending
           in pending ! i # as_completed sched (take i pending @ drop (Suc i) pending))"
  by pat_completeness auto
termination
proof (relation "measure (\<lambda>(sched, pending). length pending)")
  show "wf (measure (\<lambda>(sched :: nat \<Rightarrow> nat, pending :: 'a list). length pending))"
    by simp
next
  fix sched :: "nat \<Rightarrow> nat" and pending :: "'a list" and i
  assume ne: "pending \<noteq> []" and i: "i = sched (length pending) mod length pending"
  from ne have "i < length pending"
    unfolding i by simp
  then show "((sched, take i pending @ drop (Suc i) pending), (sched, pending))
             \<in> measure (\<lambda>(sched, pending). length pending)"
    by simp
qed

declare as_completed.simps [simp del]

definition record_result :: "platform_result \<Rightarrow> probe \<Rightarrow> py_exception + platform_result" where
  \<comment> \<open>The body of the loop, lines 107-119; \<open>future.result()\<close> re-raises what the call raised.\<close>
  "record_result results fut =
     (case outcome fut of
        Inl e \<Rightarrow> Inl e
      | Inr (u, is_active) \<Rightarrow>
          let (results', st) =
                (if is_active then (results\<lparr>active := active results + 1\<rparr>, ''active'')
                 else (results\<lparr>error := error results + 1\<rparr>, ''error''))
          in Inr (results'\<lparr>links := links results' @ [\<lparr>url = u, status = st\<rparr>]\<rparr>))"

fun collect :: "platform_result \<Rightarrow> probe list \<Rightarrow> py_exception + platform_result" where
  "collect results [] = Inr results"
| "collect results (fut # futs) =
     (case record_result results fut of Inl e \<Rightarrow> Inl e | Inr results' \<Rightarrow> collect results' futs)"

definition check_platform_links ::
  "(nat \<Rightarrow> nat) \<Rightarrow> (nat \<Rightarrow> transport) \<Rightarrow> string \<Rightarrow> string list \<Rightarrow> py_exception + platform_result" where
  \<comment> \<open>Lines 89-122, the value returned. \<open>net i\<close> is the network as the probe of the \<open>i\<close>-th
      link meets it; \<open>check_url\<close> is submitted with its default timeout of 10. The two
      progress prints (lines 101 and 121) do not touch the result and are left out.\<close>
  "check_platform_links sched net pf lnks =
     (let results = \<lparr>platform = pf, total_n = int (length lnks), active = 0, error = 0, links = []\<rparr>;
          future_to_url = map (\<lambda>i. check_url (net i) (lnks ! i) 10) [0..<length lnks]
      in collect results (as_completed sched future_to_url))"

section \<open>The parser: parse_input_file\<close>

type_synonym platforms = "(string \<times> string list) list"

definition truthy :: "string option \<Rightarrow> bool" where
  \<comment> \<open>The truth value of \<open>current_platform\<close>: \<open>None\<close> and the empty string are false.\<close>
  "truthy cp = (case cp of None \<Rightarrow> False | Some n \<Rightarrow> n \<noteq> [])"

definition append_link :: "platforms \<Rightarrow> string \<Rightarrow> string \<Rightarrow> py_exception + platforms" where
  \<comment> \<open>\<open>platforms[k].append(link)\<close>; a missing key raises \<open>KeyError\<close>.\<close>
  "append_link ps k link =
     (case map_of ps k of
        None \<Rightarrow> Inl KeyError
      | Some xs \<Rightarrow> Inr (AList.update k (xs @ [link]) ps))"

definition parse_line ::
  "platforms \<times> string option \<Rightarrow> string \<Rightarrow> py_exception + (platforms \<times> string option)" where
  \<comment> \<open>The body of the loop, lines 61-78, on the state \<open>(platforms, current_platform)\<close>.\<close>
  "parse_line st raw =
     (let line = strip raw
      in if line = [] then Inr st
         else if CHR '':'' \<in> set line \<and> \<not> startswith line ''>'' then
           (let platform_name = strip (split_first line CHR '':'')
            in Inr (AList.update platform_name [] (fst st), Some platform_name))
         else if startswith line ''>'' \<and> truthy (snd st) then
           (let link = strip (replace (strip (drop 1 line)) ''```'' '''')
            in if link \<noteq> [] then
                 (case append_link (fst st) (the (snd st)) link of
                    Inl e \<Rightarrow> Inl e
                  | Inr ps \<Rightarrow> Inr (ps, snd st))
               else Inr st)
         else Inr st)"

fun parse_lines ::
  "platforms \<times> string option \<Rightarrow> string list \<Rightarrow> py_exception + (platforms \<times> string option)" where
  "parse_lines st [] = Inr st"
| "parse_lines st (raw # rest) =
     (case parse_line st raw of Inl e \<Rightarrow> Inl e | Inr st' \<Rightarrow> parse_lines st' rest)"

text \<open>
  \<open>open(filename)\<close> either raises, or gives a file whose iteration yields its lines and
  then ends, or raises after the lines read so far (a decoding or a device error).
\<close>

datatype file_read = Unopened py_exception | Opened "string list" "py_exception option"

definition RED :: string where "RED = CHR 0x1B # ''[91m''"
definition GREEN :: string where "GREEN = CHR 0x1B # ''[92m''"
definition YELLOW :: string where "YELLOW = CHR 0x1B # ''[93m''"
definition BLUE :: string where "BLUE = CHR 0x1B # ''[94m''"
definition RESET :: string where "RESET = CHR 0x1B # ''[0m''"
definition BOLD :: string where "BOLD = CHR 0x1B # ''[1m''"

definition println :: "string \<Rightarrow> string" where
  \<comment> \<open>What \<open>print(s)\<close> writes: the text and a line feed.\<close>
  "println s = s @ [CHR 0x0A]"

definition parse_failed :: "(py_exception \<Rightarrow> string) \<Rightarrow> string \<Rightarrow> py_exception \<Rightarrow> string list \<times> (base_exception + platforms)" where
  \<comment> \<open>The two handlers, lines 82-87; \<open>str_e\<close> is \<open>str(e)\<close>.\<close>
  "parse_failed str_e filename e =
     (if e = FileNotFoundError
      then ([println (RED @ ''Error: File '' @ [CHR 0x27] @ filename @ [CHR 0x27] @ '' tidak ditemukan!'' @ RESET)],
            Inl (SystemExit 1))
      else ([println (RED @ ''Error membaca file: '' @ str_e e @ RESET)], Inl (SystemExit 1)))"

definition parse_input_file ::
  "(py_exception \<Rightarrow> string) \<Rightarrow> (string \<Rightarrow> file_read) \<Rightarrow> string \<Rightarrow> string list \<times> (base_exception + platforms)" where
  \<comment> \<open>Lines 51-87: what is printed, and the mapping returned or the exception raised.\<close>
  "parse_input_file str_e fs filename =
     (case fs filename of
        Unopened e \<Rightarrow> parse_failed str_e filename e
      | Opened lines failure \<Rightarrow>
          (case parse_lines ([], None) lines of
             Inl e \<Rightarrow> parse_failed str_e filename e
           | Inr st \<Rightarrow>
               (case failure of
                  Some e \<Rightarrow> parse_failed str_e filename e
                | None \<Rightarrow> ([], Inr (fst st)))))"

section \<open>The command line: main\<close>

definition folder_glyph :: string where
  \<comment> \<open>The code point U+1F4C1 of line 203 lies beyond the characters modelled; it stands
      here as the four bytes of its UTF-8 form.\<close>
  "folder_glyph = [CHR 0xF0, CHR 0x9F, CHR 0x93, CHR 0x81]"

definition banner :: "string list" where
  \<comment> \<open>Lines 187-188.\<close>
  "banner =
     [println ([CHR 0x0A] @ BOLD @ BLUE @ ''SEO DOMAIN CHECKER'' @ RESET),
      println (BOLD @ replicate 70 CHR ''='' @ RESET @ [CHR 0x0A])]"

definition usage :: "string list" where
  \<comment> \<open>Lines 192-198.\<close>
  "usage =
     [println (YELLOW @ ''Penggunaan: python seo_checker.py <file_input.txt>'' @ RESET),
      println ([CHR 0x0A] @ ''Contoh file input:''),
      println ''  Youtube : 2'',
      println ''  > https://youtube.com/watch?v=...'',
      println ''  > https://youtube.com/watch?v=...'',
      println ''  Medium : 2'',
      println (''  > unavailable'' @ [CHR 0x0A])]"

definition main ::
  "(py_exception \<Rightarrow> string) \<Rightarrow> (string \<Rightarrow> file_read) \<Rightarrow> string list
   \<Rightarrow> (platforms \<Rightarrow> string list \<times> (base_exception + unit))
   \<Rightarrow> string list \<times> (base_exception + unit)" where
  \<comment> \<open>Lines 186-208, on \<open>sys.argv\<close>; \<open>continue\<close> is the rest of \<open>main\<close> (lines 210-232),
      run on a mapping that is not empty.\<close>
  "main str_e fs argv continue =
     (if length argv < 2 then (banner @ usage, Inl (SystemExit 1))
      else
        let filename = argv ! 1;
            reading = println (folder_glyph @ '' Membaca file: '' @ BOLD @ filename @ RESET)
        in case parse_input_file str_e fs filename of
             (printed, Inl exc) \<Rightarrow> (banner @ [reading] @ printed, Inl exc)
           | (printed, Inr platforms_data) \<Rightarrow>
               if platforms_data = [] then
                 (banner @ [reading] @ printed
                    @ [println (RED @ ''Tidak ada data platform ditemukan!'' @ RESET)],
                  Inl (SystemExit 1))
               else
                 (case continue platforms_data of
                    (printed', res) \<Rightarrow> (banner @ [reading] @ printed @ printed', res)))"

definition script ::
  "(py_exception \<Rightarrow> string) \<Rightarrow> (string \<Rightarrow> file_read) \<Rightarrow> string list
   \<Rightarrow> (platforms \<Rightarrow> string list \<times> (base_exception + unit))
   \<Rightarrow> string list \<times> int" where
  \<comment> \<open>Lines 234-242: what the process prints and its exit status.\<close>
  "script str_e fs argv continue =
     (case main str_e fs argv continue of
        (printed, Inr _) \<Rightarrow> (printed, 0)
      | (printed, Inl (SystemExit code)) \<Rightarrow> (printed, code)
      | (printed, Inl KeyboardInterrupt) \<Rightarrow>
          (printed @ [println ([CHR 0x0A, CHR 0x0A] @ YELLOW @ ''Program dihentikan oleh user.'' @ RESET)], 0)
      | (printed, Inl (Exception e)) \<Rightarrow>
          (printed @ [println ([CHR 0x0A] @ RED @ ''Error: '' @ str_e e @ RESET)], 1))"

section \<open>Python floats, as far as the summary uses them\<close>

text \<open>
  A Python \<open>float\<close> is an IEEE 754 binary64 number. A finite one is kept as its sign, a
  natural number \<open>m\<close> and an exponent \<open>x\<close>, standing for \<open>m * 2 ^ x\<close>; the operations round to
  the nearest number with 53 significant bits, ties to the even one, and to a multiple of
  \<open>2 ^ -1074\<close> below the normal range.
\<close>

datatype pyfloat = Finite bool nat int | Infinity bool | NaN

definition round_half_even :: "nat \<Rightarrow> nat \<Rightarrow> nat" where
  \<comment> \<open>The integer nearest to \<open>N / D\<close>, the even one of two equally near.\<close>
  "round_half_even N D =
     (let k = N div D; r = N mod D
      in if 2 * r < D then k else if D < 2 * r then k + 1 else if even k then k else k + 1)"

fun bit_length :: "nat \<Rightarrow> nat" where
  \<comment> \<open>\<open>n.bit_length()\<close>\<close>
  "bit_length n = (if n = 0 then 0 else Suc (bit_length (n div 2)))"

declare bit_length.simps [simp del]

definition quantum :: "nat \<Rightarrow> nat \<Rightarrow> int" where
  \<comment> \<open>For \<open>2 ^ e \<le> p / q < 2 ^ (e + 1)\<close>: the exponent of the last of 53 bits, not below -1074.\<close>
  "quantum p q =
     (let e0 = int (bit_length p) - int (bit_length q);
          e = (if (if 0 \<le> e0 then q * 2 ^ nat e0 \<le> p else q \<le> p * 2 ^ nat (- e0))
               then e0 else e0 - 1)
      in max (e - 52) (- 1074))"

definition nearest_double :: "nat \<Rightarrow> nat \<Rightarrow> (nat \<times> int) option" where
  \<comment> \<open>The double nearest to \<open>p / q\<close> as \<open>(m, x)\<close>; \<open>None\<close> when it would reach \<open>2 ^ 1024\<close>.\<close>
  "nearest_double p q =
     (if p = 0 then Some (0, 0)
      else
        let x = quantum p q;
            m = (if 0 \<le> x then round_half_even p (q * 2 ^ nat x)
                 else round_half_even (p * 2 ^ nat (- x)) q)
        in if 2 ^ 1024 * 2 ^ nat (- x) \<le> m * 2 ^ nat x then None else Some (m, x))"

definition truediv :: "int \<Rightarrow> int \<Rightarrow> py_exception + pyfloat" where
  \<comment> \<open>\<open>a / b\<close> on two \<open>int\<close>s: the quotient correctly rounded.\<close>
  "truediv a b =
     (if b = 0 then Inl ZeroDivisionError
      else case nearest_double (nat \<bar>a\<bar>) (nat \<bar>b\<bar>) of
             None \<Rightarrow> Inl OverflowError
           | Some (m, x) \<Rightarrow> Inr (Finite ((a < 0) \<noteq> (b < 0)) m x))"

fun float_mul :: "pyfloat \<Rightarrow> pyfloat \<Rightarrow> pyfloat" where
  "float_mul (Finite s1 m1 x1) (Finite s2 m2 x2) =
     (let x = x1 + x2
      in case nearest_double (m1 * m2 * 2 ^ nat x) (2 ^ nat (- x)) of
           None \<Rightarrow> Infinity (s1 \<noteq> s2)
         | Some (m, x') \<Rightarrow> Finite (s1 \<noteq> s2) m x')"
| "float_mul (Finite s1 m1 x1) (Infinity s2) = (if m1 = 0 then NaN else Infinity (s1 \<noteq> s2))"
| "float_mul (Infinity s1) (Finite s2 m2 x2) = (if m2 = 0 then NaN else Infinity (s1 \<noteq> s2))"
| "float_mul (Infinity s1) (Infinity s2) = Infinity (s1 \<noteq> s2)"
| "float_mul NaN y = NaN"
| "float_mul x NaN = NaN"

definition digit_char :: "nat \<Rightarrow> char" where
  "digit_char d = char_of (48 + d)"

function str_nat :: "nat \<Rightarrow> string" where
  "str_nat n = (if n < 10 then [digit_char n] else str_nat (n div 10) @ [digit_char (n mod 10)])"
  by pat_completeness auto
termination
  by (relation "measure id") auto

declare str_nat.simps [simp del]

definition str_int :: "int \<Rightarrow> string" where
  \<comment> \<open>\<open>str(i)\<close>, also what \<open>{i}\<close> gives in an f-string.\<close>
  "str_int i = (if i < 0 then ''-'' @ str_nat (nat (- i)) else str_nat (nat i))"

definition format_1f :: "pyfloat \<Rightarrow> string" where
  \<comment> \<open>\<open>{x:.1f}\<close>: the decimal with one digit after the point nearest to the exact value of
      \<open>x\<close>, the even one of two equally near; the sign is kept on a zero.\<close>
  "format_1f x =
     (case x of
        Finite s m e \<Rightarrow>
          (let tenths = (if 0 \<le> e then 10 * m * 2 ^ nat e else round_half_even (10 * m) (2 ^ nat (- e)))
           in (if s then ''-'' else '''') @ str_nat (tenths div 10) @ ''.'' @ str_nat (tenths mod 10))
      | Infinity s \<Rightarrow> (if s then ''-'' else '''') @ ''inf''
      | NaN \<Rightarrow> ''nan'')"

definition ljust :: "nat \<Rightarrow> string \<Rightarrow> string" where
  \<comment> \<open>\<open>{s:<n}\<close>\<close>
  "ljust n s = s @ replicate (n - length s) CHR '' ''"

definition success_rate :: "int \<Rightarrow> int \<Rightarrow> py_exception + string" where
  \<comment> \<open>The argument of the \<open>print\<close> of line 164.\<close>
  "success_rate total_active total_all =
     (if total_all > 0 then
        (case truediv total_active total_all of
           Inl e \<Rightarrow> Inl e
         | Inr x \<Rightarrow> Inr (''Success Rate    : '' @ format_1f (float_mul x (Finite False 100 0)) @ ''%''))
      else Inr ''0%'')"

definition is_digit :: "char \<Rightarrow> bool" where
  "is_digit c = (c \<in> set ''0123456789'')"

section \<open>The summary: display_results\<close>

definition display_row :: "platform_result \<Rightarrow> string list" where
  \<comment> \<open>Lines 149-156: what one platform prints.\<close>
  "display_row result =
     [BLUE @ BOLD @ ljust 20 (platform result) @ RESET @ '' '',
      ''['' @ str_int (total_n result) @ ''] '',
      GREEN @ ''['' @ str_int (active result) @ '']'' @ RESET @ '' '',
      (if error result > 0 then println (RED @ ''['' @ str_int (error result) @ '']'' @ RESET)
       else println '''')]"

definition display_results :: "platform_result list \<Rightarrow> string list \<times> (py_exception + unit)" where
  \<comment> \<open>Lines 124-165: what is printed, and the exception raised if any.\<close>
  "display_results all_results =
     (let total_all = sum_list (map total_n all_results);
          total_active = sum_list (map active all_results);
          total_error = sum_list (map error all_results);
          printed =
            [println ([CHR 0x0A] @ BOLD @ replicate 70 CHR ''='' @ RESET),
             println (BOLD @ ''HASIL PENGECEKAN DOMAIN SEO'' @ RESET),
             println (BOLD @ replicate 70 CHR ''='' @ RESET @ [CHR 0x0A])]
            @ concat (map display_row all_results)
            @ [println ([CHR 0x0A] @ BOLD @ replicate 70 CHR ''='' @ RESET),
               println (BOLD @ ''SUMMARY'' @ RESET),
               println (''Total Links     : '' @ str_int total_all),
               println (''Active Links    : '' @ GREEN @ str_int total_active @ RESET),
               println (''Error Links     : '' @ RED @ str_int total_error @ RESET)]
      in case success_rate total_active total_all of
           Inl e \<Rightarrow> (printed, Inl e)
         | Inr rate \<Rightarrow>
             (printed @ [println rate, println (BOLD @ replicate 70 CHR ''='' @ RESET @ [CHR 0x0A])],
              Inr ()))"

definition counts_add_up :: "platform_result \<Rightarrow> bool" where
  \<comment> \<open>The invariant of a platform result, with counters that are not negative.\<close>
  "counts_add_up r = (0 \<le> active r \<and> 0 \<le> error r \<and> active r + error r = total_n r)"

definition one_decimal :: "nat \<Rightarrow> string" where
  \<comment> \<open>The decimal numeral, with one digit after the point, of \<open>k\<close> tenths.\<close>
  "one_decimal k = str_nat (k div 10) @ ''.'' @ [digit_char (k mod 10)]"

definition produced :: "platform_result \<Rightarrow> bool" where
  \<comment> \<open>The result is one that \<open>check_platform_links\<close> returns.\<close>
  "produced r = (\<exists>sched net pf lnks. check_platform_links sched net pf lnks = Inr r)"

definition result_A :: platform_result where
  "result_A = \<lparr>platform = ''A'', total_n = 1, active = 0, error = 1,
               links = [\<lparr>url = ''unavailable'', status = ''error''\<rparr>]\<rparr>"

definition result_B :: platform_result where
  "result_B = \<lparr>platform = ''B'', total_n = 1, active = 1, error = 0,
               links = [\<lparr>url = ''https://ok.example'', status = ''active''\<rparr>]\<rparr>"

definition result_C :: platform_result where
  "result_C = \<lparr>platform = ''C'', total_n = 0, active = 0, error = 0, links = []\<rparr>"

section \<open>Notions used in the statements\<close>

definition normalized :: "string \<Rightarrow> string" where
  \<comment> \<open>The local \<open>url\<close> after lines 33-34.\<close>
  "normalized u =
     (if startswith u ''http://'' \<or> startswith u ''https://'' then u else ''https://'' @ u)"

definition is_sentinel_or_blank :: "string \<Rightarrow> bool" where
  \<comment> \<open>The guard of line 28.\<close>
  "is_sentinel_or_blank u = (lower (strip u) = ''unavailable'' \<or> strip u = [])"

definition stored_url :: "string \<Rightarrow> string" where
  \<comment> \<open>The first component of every pair \<open>check_url\<close> returns for \<open>u\<close>.\<close>
  "stored_url u = (if is_sentinel_or_blank u then u else normalized u)"

definition same_letter :: "char \<Rightarrow> char \<Rightarrow> bool" where
  \<comment> \<open>Equal, or one is the capital A-Z of the other.\<close>
  "same_letter c d =
     (c = d
      \<or> (65 \<le> (of_char c :: nat) \<and> (of_char c :: nat) \<le> 90 \<and> (of_char c :: nat) + 32 = of_char d)
      \<or> (65 \<le> (of_char d :: nat) \<and> (of_char d :: nat) \<le> 90 \<and> (of_char d :: nat) + 32 = of_char c))"

definition equals_in_any_case :: "string \<Rightarrow> string \<Rightarrow> bool" where
  \<comment> \<open>The spec's "equals, in any letter case".\<close>
  "equals_in_any_case s t = list_all2 same_letter s t"

definition small_letter :: "char \<Rightarrow> bool" where
  "small_letter d = (97 \<le> (of_char d :: nat) \<and> (of_char d :: nat) \<le> 122)"

definition is_header :: "string \<Rightarrow> bool" where
  \<comment> \<open>The raw line is taken by the branch of line 68.\<close>
  "is_header raw = (strip raw \<noteq> [] \<and> CHR '':'' \<in> set (strip raw) \<and> \<not> startswith (strip raw) ''>'')"

definition header_name :: "string \<Rightarrow> string" where
  "header_name raw = strip (split_first (strip raw) CHR '':'')"

definition is_link_line :: "string \<Rightarrow> bool" where
  \<comment> \<open>The line, trimmed, starts with \<open>>\<close>.\<close>
  "is_link_line raw = startswith (strip raw) ''>''"

definition link_of :: "string \<Rightarrow> string" where
  \<comment> \<open>Line 76.\<close>
  "link_of raw = strip (replace (strip (drop 1 (strip raw))) ''```'' '''')"

definition links_of :: "string list \<Rightarrow> string list" where
  \<comment> \<open>The links lines 74-78 append for a run of lines under one platform of non-empty name.\<close>
  "links_of body = filter (\<lambda>link. link \<noteq> []) (map link_of (filter is_link_line body))"

definition net_404_then_200 :: transport where
  "net_404_then_200 rq = (if meth rq = HEAD then Response 404 else Response 200)"

definition net_timeout :: transport where
  "net_timeout rq = Raises Timeout"

definition net_200 :: transport where
  "net_200 rq = Response 200"

definition everywhere :: "transport \<Rightarrow> nat \<Rightarrow> transport" where
  "everywhere net i = net"

definition first_pending :: "nat \<Rightarrow> nat" where
  "first_pending n = 0"

definition last_pending :: "nat \<Rightarrow> nat" where
  "last_pending n = n - 1"

definition current_is_key :: "platforms \<times> string option \<Rightarrow> bool" where
  \<comment> \<open>The current platform, when there is one, is a key of the mapping.\<close>
  "current_is_key st = (case snd st of None \<Rightarrow> True | Some k \<Rightarrow> map_of (fst st) k \<noteq> None)"

definition links_not_blank :: "platforms \<Rightarrow> bool" where
  \<comment> \<open>No link of the mapping is empty, or empty when trimmed.\<close>
  "links_not_blank ps = list_all (\<lambda>entry. list_all (\<lambda>u. u \<noteq> [] \<and> strip u \<noteq> []) (snd entry)) ps"

definition readable :: "string list \<Rightarrow> string \<Rightarrow> file_read" where
  \<comment> \<open>A file system in which every file opens and holds the given lines.\<close>
  "readable lns name = Opened lns None"

definition missing :: "string \<Rightarrow> file_read" where
  \<comment> \<open>A file system in which no file exists.\<close>
  "missing name = Unopened FileNotFoundError"

definition class_name :: "py_exception \<Rightarrow> string" where
  "class_name e = (case e of OtherException c \<Rightarrow> c | _ \<Rightarrow> ''error'')"

definition stop :: "platforms \<Rightarrow> string list \<times> (base_exception + unit)" where
  "stop ps = ([], Inr ())"

section \<open>Facts about the string operations\<close>

lemma lower_char_same_letter:
  assumes "same_letter c d" and "small_letter d"
  shows "lower_char c = d"
proof -
  from assms consider (eq) "c = d"
    | (cap) "65 \<le> (of_char c :: nat)" "(of_char c :: nat) \<le> 90" "(of_char c :: nat) + 32 = of_char d"
    by (auto simp: same_letter_def small_letter_def)
  then show ?thesis
  proof cases
    case eq
    with assms(2) show ?thesis by (simp add: lower_char_def small_letter_def)
  next
    case cap
    then have "lower_char c = char_of ((of_char c :: nat) + 32)"
      by (simp add: lower_char_def)
    also have "\<dots> = char_of (of_char d :: nat)" using cap(3) by simp
    finally show ?thesis by simp
  qed
qed

lemma lower_any_case:
  "list_all2 same_letter s t \<Longrightarrow> list_all small_letter t \<Longrightarrow> lower s = t"
  unfolding lower_def
  by (induction s t rule: list_all2_induct) (simp_all add: lower_char_same_letter)

lemma small_unavailable: "list_all small_letter ''unavailable''"
  by (simp add: small_letter_def)

section \<open>Facts about check_url\<close>

lemma check_url_try_cases:
  "check_url_try net u t =
     (case net (mk_request HEAD (normalized u) t) of
        Raises e \<Rightarrow> ([mk_request HEAD (normalized u) t], normalized u, Inl e)
      | Response sc \<Rightarrow>
          if sc \<ge> 400 then
            (case net (mk_request GET (normalized u) t) of
               Raises e \<Rightarrow> ([mk_request HEAD (normalized u) t, mk_request GET (normalized u) t], normalized u, Inl e)
             | Response sc' \<Rightarrow> ([mk_request HEAD (normalized u) t, mk_request GET (normalized u) t], normalized u, Inr (normalized u, sc' < 400)))
          else ([mk_request HEAD (normalized u) t], normalized u, Inr (normalized u, sc < 400)))"
proof -
  have n: "(if \<not> (startswith u ''http://'' \<or> startswith u ''https://'') then ''https://'' @ u else u)
           = normalized u"
    by (simp add: normalized_def)
  show ?thesis
    unfolding check_url_try_def n Let_def ..
qed

lemma check_url_probed:
  assumes "\<not> is_sentinel_or_blank u"
  shows "requests (check_url net u t) =
           (case net (mk_request HEAD (normalized u) t) of
              Raises e \<Rightarrow> [mk_request HEAD (normalized u) t]
            | Response sc \<Rightarrow> if sc \<ge> 400 then [mk_request HEAD (normalized u) t, mk_request GET (normalized u) t]
                             else [mk_request HEAD (normalized u) t])"
    and "outcome (check_url net u t) =
           Inr (normalized u,
                case net (mk_request HEAD (normalized u) t) of
                  Raises e \<Rightarrow> False
                | Response sc \<Rightarrow>
                    if sc \<ge> 400 then
                      (case net (mk_request GET (normalized u) t) of Raises e \<Rightarrow> False | Response sc' \<Rightarrow> sc' < 400)
                    else sc < 400)"
  using assms
  by (simp_all add: check_url_def check_url_try_cases is_sentinel_or_blank_def split: reply.splits)

lemma check_url_skipped:
  assumes "is_sentinel_or_blank u"
  shows "check_url net u t = \<lparr>requests = [], outcome = Inr (u, False)\<rparr>"
  using assms by (simp add: check_url_def is_sentinel_or_blank_def)

lemma mk_request_meth [simp]: "meth (mk_request m u t) = m"
  by (simp add: mk_request_def)

lemma mk_request_target [simp]: "target (mk_request m u t) = u"
  by (simp add: mk_request_def)

lemma mk_request_same_parameters:
  "mk_request GET u t = (mk_request HEAD u t)\<lparr>meth := GET\<rparr>"
  by (simp add: mk_request_def)

lemma check_url_returns:
  "\<exists>w a. outcome (check_url net u t) = Inr (w, a)"
proof (cases "is_sentinel_or_blank u")
  case True
  then show ?thesis by (auto simp: check_url_skipped)
next
  case False
  then show ?thesis by (simp add: check_url_probed(2))
qed

lemma check_url_raised_is_error:
  assumes "rq \<in> set (requests (check_url net u t))" and "net rq = Raises e"
  shows "\<exists>w. outcome (check_url net u t) = Inr (w, False)"
proof (cases "is_sentinel_or_blank u")
  case True
  with assms show ?thesis by (simp add: check_url_skipped)
next
  case False
  from assms show ?thesis
    unfolding check_url_probed [OF False] by (auto split: reply.splits if_splits)
qed

lemma stored_url_check_url: "outcome (check_url net u t) = Inr (stored_url u, a) \<or> outcome (check_url net u t) = Inr (stored_url u, \<not> a)"
proof (cases "is_sentinel_or_blank u")
  case True
  then show ?thesis by (cases a) (simp_all add: check_url_skipped stored_url_def)
next
  case False
  then show ?thesis by (cases a) (auto simp: check_url_probed(2) stored_url_def)
qed

lemma fst_outcome_check_url: "fst (projr (outcome (check_url net u t))) = stored_url u"
  using stored_url_check_url [of net u t True] by auto

lemma normalized_prefixed:
  "startswith (normalized u) ''http://'' \<or> startswith (normalized u) ''https://''"
  by (simp add: normalized_def startswith_def)

lemma unavailable_skipped: "is_sentinel_or_blank ''unavailable''"
  by code_simp

lemma ok_example_probed: "\<not> is_sentinel_or_blank ''ok.example''"
  by code_simp

section \<open>Facts about check_platform_links\<close>

lemma as_completed_Nil: "as_completed sched [] = []"
  by (simp add: as_completed.simps)

lemma as_completed_Cons:
  "as_completed sched (x # xs) =
     (let i = sched (Suc (length xs)) mod Suc (length xs)
      in (x # xs) ! i # as_completed sched (take i (x # xs) @ drop (Suc i) (x # xs)))"
  by (subst as_completed.simps) simp

lemma as_completed_length: "length (as_completed sched xs) = length xs"
proof (induction sched xs rule: as_completed.induct)
  case (1 sched pending)
  show ?case
  proof (cases "pending = []")
    case True
    then show ?thesis by (simp add: as_completed.simps)
  next
    case False
    define i where "i = sched (length pending) mod length pending"
    have il: "i < length pending"
      using False by (simp add: i_def)
    have "length (as_completed sched (take i pending @ drop (Suc i) pending))
            = length (take i pending @ drop (Suc i) pending)"
      using "1.IH" [OF False i_def] .
    with il False show ?thesis
      by (subst as_completed.simps) (simp add: i_def [symmetric] Let_def)
  qed
qed

lemma as_completed_set: "set (as_completed sched xs) \<subseteq> set xs"
proof (induction sched xs rule: as_completed.induct)
  case (1 sched pending)
  show ?case
  proof (cases "pending = []")
    case True
    then show ?thesis by (simp add: as_completed.simps)
  next
    case False
    define i where "i = sched (length pending) mod length pending"
    have il: "i < length pending"
      using False by (simp add: i_def)
    have "set (as_completed sched (take i pending @ drop (Suc i) pending))
            \<subseteq> set (take i pending @ drop (Suc i) pending)"
      using "1.IH" [OF False i_def] .
    moreover have "set (take i pending @ drop (Suc i) pending) \<subseteq> set pending"
      using set_take_subset [of i pending] set_drop_subset [of "Suc i" pending] by auto
    moreover have "pending ! i \<in> set pending"
      using il by simp
    ultimately show ?thesis
      using False by (subst as_completed.simps) (auto simp: i_def [symmetric] Let_def)
  qed
qed

lemma as_completed_mset: "mset (as_completed sched xs) = mset xs"
proof (induction sched xs rule: as_completed.induct)
  case (1 sched pending)
  show ?case
  proof (cases "pending = []")
    case True
    then show ?thesis by (simp add: as_completed.simps)
  next
    case False
    define i where "i = sched (length pending) mod length pending"
    have il: "i < length pending"
      using False by (simp add: i_def)
    have ih: "mset (as_completed sched (take i pending @ drop (Suc i) pending))
            = mset (take i pending @ drop (Suc i) pending)"
      using "1.IH" [OF False i_def] .
    have "mset pending = mset (take i pending @ pending ! i # drop (Suc i) pending)"
      using id_take_nth_drop [OF il] by simp
    then have "mset pending = add_mset (pending ! i) (mset (take i pending @ drop (Suc i) pending))"
      by simp
    with ih False show ?thesis
      by (subst as_completed.simps) (simp add: i_def [symmetric] Let_def)
  qed
qed

lemma record_result_counts:
  assumes "outcome fut = Inr (w, a)"
  shows "\<exists>r'. record_result r fut = Inr r'
           \<and> platform r' = platform r \<and> total_n r' = total_n r
           \<and> active r' + error r' = active r + error r + 1
           \<and> links r' = links r @ [\<lparr>url = w, status = (if a then ''active'' else ''error'')\<rparr>]"
  using assms by (simp add: record_result_def)

lemma collect_counts:
  assumes "\<forall>fut \<in> set futs. \<exists>w a. outcome fut = Inr (w, a)"
  shows "\<exists>r'. collect r futs = Inr r'
           \<and> platform r' = platform r \<and> total_n r' = total_n r
           \<and> active r' + error r' = active r + error r + int (length futs)
           \<and> length (links r') = length (links r) + length futs"
  using assms
proof (induction futs arbitrary: r)
  case Nil
  then show ?case by simp
next
  case (Cons fut futs)
  from Cons.prems obtain w a where o: "outcome fut = Inr (w, a)"
    by auto
  from record_result_counts [OF o, of r] obtain r1 where
    r1: "record_result r fut = Inr r1" "platform r1 = platform r" "total_n r1 = total_n r"
        "active r1 + error r1 = active r + error r + 1"
        "links r1 = links r @ [\<lparr>url = w, status = (if a then ''active'' else ''error'')\<rparr>]"
    by blast
  from Cons.prems have "\<forall>fut \<in> set futs. \<exists>w a. outcome fut = Inr (w, a)"
    by simp
  from Cons.IH [OF this, of r1] obtain r' where
    r': "collect r1 futs = Inr r'" "platform r' = platform r1" "total_n r' = total_n r1"
        "active r' + error r' = active r1 + error r1 + int (length futs)"
        "length (links r') = length (links r1) + length futs"
    by blast
  from r1 r' show ?case by simp
qed

lemma collect_urls:
  assumes "\<forall>fut \<in> set futs. \<exists>w a. outcome fut = Inr (w, a)"
  shows "\<exists>r'. collect r futs = Inr r'
           \<and> map url (links r') = map url (links r) @ map (\<lambda>fut. fst (projr (outcome fut))) futs"
  using assms
proof (induction futs arbitrary: r)
  case Nil
  then show ?case by simp
next
  case (Cons fut futs)
  from Cons.prems obtain w a where o: "outcome fut = Inr (w, a)"
    by auto
  from record_result_counts [OF o, of r] obtain r1 where
    r1: "record_result r fut = Inr r1"
        "links r1 = links r @ [\<lparr>url = w, status = (if a then ''active'' else ''error'')\<rparr>]"
    by blast
  from Cons.prems have "\<forall>fut \<in> set futs. \<exists>w a. outcome fut = Inr (w, a)"
    by simp
  from Cons.IH [OF this, of r1] obtain r' where
    r': "collect r1 futs = Inr r'"
        "map url (links r') = map url (links r1) @ map (\<lambda>fut. fst (projr (outcome fut))) futs"
    by blast
  from r1 r' o show ?case by simp
qed

lemma single_link_result:
  "\<exists>r. check_platform_links sched nets pf [u] = Inr r \<and> map url (links r) = [stored_url u]"
proof -
  have "\<exists>w a. outcome (check_url (nets 0) u 10) = Inr (w, a)"
    by (rule check_url_returns)
  then have "\<forall>fut \<in> set [check_url (nets 0) u 10]. \<exists>w a. outcome fut = Inr (w, a)"
    by simp
  from collect_urls [OF this,
      of "\<lparr>platform = pf, total_n = int (length [u]), active = 0, error = 0, links = []\<rparr>"]
  show ?thesis
    by (simp add: check_platform_links_def as_completed_Cons as_completed_Nil fst_outcome_check_url)
qed

section \<open>The claims about the probe and the platform check\<close>

text \<open>
  C1. For every platform name and every list of URL strings, whatever the network answers
  and in whatever order the probes complete, \<open>check_platform_links\<close> returns a result
  with \<open>active + error = total = len(links)\<close>, and \<open>total\<close> is the length of the input list.
\<close>

theorem platform_result_counts_add_up:
  "\<exists>r. check_platform_links sched net pf lnks = Inr r
       \<and> active r + error r = total_n r
       \<and> total_n r = int (length (links r))
       \<and> total_n r = int (length lnks)"
proof -
  define futs where "futs = map (\<lambda>i. check_url (net i) (lnks ! i) 10) [0..<length lnks]"
  have "\<forall>fut \<in> set futs. \<exists>w a. outcome fut = Inr (w, a)"
    by (auto simp: futs_def check_url_returns)
  then have fin: "\<forall>fut \<in> set (as_completed sched futs). \<exists>w a. outcome fut = Inr (w, a)"
    using as_completed_set [of sched futs] by blast
  have len: "length futs = length lnks"
    by (simp add: futs_def)
  from collect_counts [OF fin,
      of "\<lparr>platform = pf, total_n = int (length lnks), active = 0, error = 0, links = []\<rparr>"]
  show ?thesis
    by (auto simp: check_platform_links_def futs_def [symmetric] as_completed_length len)
qed

theorem platform_counts_witness:
  "\<exists>r. check_platform_links last_pending (everywhere net_404_then_200) ''Youtube'' [''a.example'', ''unavailable''] = Inr r
       \<and> active r + error r = total_n r
       \<and> total_n r = int (length (links r))
       \<and> total_n r = int (length [''a.example'', ''unavailable''])"
  by (rule platform_result_counts_add_up)

text \<open>
  C2. For a URL that is neither blank nor the sentinel, the probe issues a HEAD request
  first; it issues a GET request as well, with the same parameters, if and only if the HEAD
  response has a status code of 400 or more; the URL is active exactly when the last request
  issued got a response with a status code below 400. A HEAD response of 404 followed by a
  GET response of 200 gives active.
\<close>

theorem head_then_get_fallback:
  assumes "\<not> (lower (strip u) = ''unavailable'' \<or> strip u = [])"
  shows "(let p = check_url net u t;
              head_rq = mk_request HEAD (normalized u) t;
              get_rq = head_rq\<lparr>meth := GET\<rparr>
          in (requests p = [head_rq] \<or> requests p = [head_rq, get_rq])
           \<and> ((requests p = [head_rq, get_rq]) = (\<exists>sc. net head_rq = Response sc \<and> sc \<ge> 400))
           \<and> ((\<exists>w. outcome p = Inr (w, True)) = (\<exists>sc. net (last (requests p)) = Response sc \<and> sc < 400))
           \<and> (net head_rq = Response 404 \<and> net get_rq = Response 200 \<longrightarrow> outcome p = Inr (normalized u, True)))"
proof -
  have nb: "\<not> is_sentinel_or_blank u"
    using assms(1) by (simp add: is_sentinel_or_blank_def)
  note pr = check_url_probed [OF nb, of net t]
  have g: "(mk_request HEAD (normalized u) t)\<lparr>meth := GET\<rparr> = mk_request GET (normalized u) t"
    by (simp add: mk_request_same_parameters)
  have ne: "mk_request HEAD (normalized u) t \<noteq> mk_request GET (normalized u) t"
    by (simp add: mk_request_def)
  show ?thesis
    unfolding Let_def g pr using ne
    by (auto split: reply.splits)
qed

theorem head_then_get_witness:
  "\<not> (lower (strip ''example.com'') = ''unavailable'' \<or> strip ''example.com'' = [])
   \<and> requests (check_url net_404_then_200 ''example.com'' 10)
       = [mk_request HEAD ''https://example.com'' 10, mk_request GET ''https://example.com'' 10]
   \<and> outcome (check_url net_404_then_200 ''example.com'' 10) = Inr (''https://example.com'', True)"
proof -
  have h: "\<not> (lower (strip ''example.com'') = ''unavailable'' \<or> strip ''example.com'' = [])"
    by code_simp
  have n: "normalized ''example.com'' = ''https://example.com''"
    by code_simp
  have g: "(mk_request HEAD ''https://example.com'' 10)\<lparr>meth := GET\<rparr> = mk_request GET ''https://example.com'' 10"
    by (simp add: mk_request_def)
  have r: "net_404_then_200 (mk_request HEAD ''https://example.com'' 10) = Response 404"
      "net_404_then_200 (mk_request GET ''https://example.com'' 10) = Response 200"
    by (simp_all add: net_404_then_200_def)
  from head_then_get_fallback [OF h, of net_404_then_200 10] h r
  show ?thesis
    unfolding Let_def n g by simp
qed

text \<open>
  C3. An input that, trimmed, is empty or equals \<open>unavailable\<close> in any letter case is
  classified as an error, and no request is issued.
\<close>

theorem sentinel_or_blank_is_error_without_request:
  assumes "strip u = [] \<or> equals_in_any_case (strip u) ''unavailable''"
  shows "check_url net u t = \<lparr>requests = [], outcome = Inr (u, False)\<rparr>"
  using assms lower_any_case [OF _ small_unavailable, of "strip u"]
  by (auto simp: check_url_def equals_in_any_case_def)

theorem sentinel_witness:
  "(strip ''  UnAvailable '' = [] \<or> equals_in_any_case (strip ''  UnAvailable '') ''unavailable'')
   \<and> check_url net_404_then_200 ''  UnAvailable '' 10 = \<lparr>requests = [], outcome = Inr (''  UnAvailable '', False)\<rparr>"
proof -
  have h: "strip ''  UnAvailable '' = [] \<or> equals_in_any_case (strip ''  UnAvailable '') ''unavailable''"
    by code_simp
  show ?thesis
    using h sentinel_or_blank_is_error_without_request [OF h] by simp
qed

text \<open>
  C4. For a URL that is neither blank nor the sentinel and starts with neither \<open>http://\<close> nor
  \<open>https://\<close>, every request goes to \<open>https://\<close> followed by the URL, and the URL
  returned is that prefixed form, whether the link is active or not; so it is when a
  request raises. The link result of a platform holding that URL stores the prefixed form.
\<close>

theorem missing_scheme_is_prefixed:
  assumes "\<not> (lower (strip u) = ''unavailable'' \<or> strip u = [])"
    and "\<not> startswith u ''http://''" and "\<not> startswith u ''https://''"
  shows "requests (check_url net u t) \<noteq> []
       \<and> (\<forall>rq \<in> set (requests (check_url net u t)). target rq = ''https://'' @ u)
       \<and> (\<exists>a. outcome (check_url net u t) = Inr (''https://'' @ u, a))
       \<and> ((\<exists>rq \<in> set (requests (check_url net u t)). \<exists>e. net rq = Raises e)
            \<longrightarrow> outcome (check_url net u t) = Inr (''https://'' @ u, False))
       \<and> (\<exists>r. check_platform_links sched nets pf [u] = Inr r
              \<and> map url (links r) = [''https://'' @ u])"
proof -
  have nb: "\<not> is_sentinel_or_blank u"
    using assms(1) by (simp add: is_sentinel_or_blank_def)
  have n: "normalized u = ''https://'' @ u"
    using assms(2,3) by (simp add: normalized_def)
  note pr = check_url_probed [OF nb, of net t, unfolded n]
  have "requests (check_url net u t) \<noteq> []
       \<and> (\<forall>rq \<in> set (requests (check_url net u t)). target rq = ''https://'' @ u)
       \<and> (\<exists>a. outcome (check_url net u t) = Inr (''https://'' @ u, a))
       \<and> ((\<exists>rq \<in> set (requests (check_url net u t)). \<exists>e. net rq = Raises e)
            \<longrightarrow> outcome (check_url net u t) = Inr (''https://'' @ u, False))"
    unfolding pr by (auto split: reply.splits)
  moreover have "stored_url u = ''https://'' @ u"
    using nb n by (simp add: stored_url_def)
  with single_link_result [of sched nets pf u]
  have "\<exists>r. check_platform_links sched nets pf [u] = Inr r \<and> map url (links r) = [''https://'' @ u]"
    by simp
  ultimately show ?thesis
    by blast
qed

theorem missing_scheme_witness:
  "\<not> (lower (strip ''example.com'') = ''unavailable'' \<or> strip ''example.com'' = [])
   \<and> \<not> startswith ''example.com'' ''http://'' \<and> \<not> startswith ''example.com'' ''https://''
   \<and> requests (check_url net_timeout ''example.com'' 10) \<noteq> []
   \<and> target (hd (requests (check_url net_timeout ''example.com'' 10))) = ''https://example.com''
   \<and> outcome (check_url net_timeout ''example.com'' 10) = Inr (''https://example.com'', False)
   \<and> (\<exists>r. check_platform_links first_pending (everywhere net_timeout) ''Youtube'' [''example.com''] = Inr r
          \<and> map url (links r) = [''https://example.com''])"
proof -
  have h: "\<not> (lower (strip ''example.com'') = ''unavailable'' \<or> strip ''example.com'' = [])"
    by code_simp
  have p: "\<not> startswith ''example.com'' ''http://''" "\<not> startswith ''example.com'' ''https://''"
    by (simp_all add: startswith_def)
  note m = missing_scheme_is_prefixed [OF h p, of net_timeout 10 first_pending "everywhere net_timeout" "''Youtube''"]
  from m have ne: "requests (check_url net_timeout ''example.com'' 10) \<noteq> []"
    by blast
  then have hd_in: "hd (requests (check_url net_timeout ''example.com'' 10))
                      \<in> set (requests (check_url net_timeout ''example.com'' 10))"
    by simp
  have "\<exists>e. net_timeout (hd (requests (check_url net_timeout ''example.com'' 10))) = Raises e"
    by (simp add: net_timeout_def)
  with m hd_in have "outcome (check_url net_timeout ''example.com'' 10) = Inr (''https://'' @ ''example.com'', False)"
    by blast
  moreover from m hd_in
  have "target (hd (requests (check_url net_timeout ''example.com'' 10))) = ''https://'' @ ''example.com''"
    by blast
  moreover from m
  have "\<exists>r. check_platform_links first_pending (everywhere net_timeout) ''Youtube'' [''example.com''] = Inr r
          \<and> map url (links r) = [''https://'' @ ''example.com'']"
    by blast
  ultimately show ?thesis
    using h p ne by simp
qed

text \<open>
  C5. As stated, every link result has a URL that starts with \<open>http://\<close> or \<open>https://\<close>.
  The sentinel is returned as it was given: the result for the list holding only
  \<open>unavailable\<close> stores \<open>unavailable\<close>, which has no scheme.
\<close>

theorem sentinel_stored_as_is:
  "check_platform_links first_pending (everywhere net_200) ''Medium'' [''unavailable'']
     = Inr \<lparr>platform = ''Medium'', total_n = 1, active = 0, error = 1,
            links = [\<lparr>url = ''unavailable'', status = ''error''\<rparr>]\<rparr>
   \<and> \<not> startswith ''unavailable'' ''http://'' \<and> \<not> startswith ''unavailable'' ''https://''"
proof -
  have "check_url (everywhere net_200 0) ''unavailable'' 10
          = \<lparr>requests = [], outcome = Inr (''unavailable'', False)\<rparr>"
    using unavailable_skipped by (rule check_url_skipped)
  then have "check_platform_links first_pending (everywhere net_200) ''Medium'' [''unavailable'']
     = Inr \<lparr>platform = ''Medium'', total_n = 1, active = 0, error = 1,
            links = [\<lparr>url = ''unavailable'', status = ''error''\<rparr>]\<rparr>"
    by (simp add: check_platform_links_def as_completed_Cons as_completed_Nil record_result_def)
  moreover have "\<not> startswith ''unavailable'' ''http://''" "\<not> startswith ''unavailable'' ''https://''"
    by (simp_all add: startswith_def)
  ultimately show ?thesis by simp
qed

text \<open>
  C5, amended. The URLs of the link results are, up to the order of completion, the stored
  forms of the input URLs: for an input that is neither blank nor the sentinel the stored
  form starts with \<open>http://\<close> or \<open>https://\<close>; for a blank or sentinel input it is the
  input itself, unchanged.
\<close>

theorem stored_urls_of_platform:
  "\<exists>r. check_platform_links sched net pf lnks = Inr r
       \<and> mset (map url (links r)) = mset (map stored_url lnks)
       \<and> (\<forall>u. \<not> is_sentinel_or_blank u \<longrightarrow>
              startswith (stored_url u) ''http://'' \<or> startswith (stored_url u) ''https://'')
       \<and> (\<forall>u. is_sentinel_or_blank u \<longrightarrow> stored_url u = u)"
proof -
  define futs where "futs = map (\<lambda>i. check_url (net i) (lnks ! i) 10) [0..<length lnks]"
  have "\<forall>fut \<in> set futs. \<exists>w a. outcome fut = Inr (w, a)"
    by (auto simp: futs_def check_url_returns)
  then have fin: "\<forall>fut \<in> set (as_completed sched futs). \<exists>w a. outcome fut = Inr (w, a)"
    using as_completed_set [of sched futs] by blast
  from collect_urls [OF fin,
      of "\<lparr>platform = pf, total_n = int (length lnks), active = 0, error = 0, links = []\<rparr>"]
  obtain r where r: "check_platform_links sched net pf lnks = Inr r"
    and u: "map url (links r) = map (\<lambda>fut. fst (projr (outcome fut))) (as_completed sched futs)"
    by (auto simp: check_platform_links_def futs_def [symmetric])
  have "mset (map url (links r)) = image_mset (\<lambda>fut. fst (projr (outcome fut))) (mset futs)"
    unfolding u by (simp add: as_completed_mset)
  also have "\<dots> = mset (map (\<lambda>fut. fst (projr (outcome fut))) futs)"
    by simp
  also have "map (\<lambda>fut. fst (projr (outcome fut))) futs = map (\<lambda>i. stored_url (lnks ! i)) [0..<length lnks]"
    by (simp add: futs_def fst_outcome_check_url)
  also have "\<dots> = map stored_url (map ((!) lnks) [0..<length lnks])"
    by (simp only: map_map o_def)
  also have "\<dots> = map stored_url lnks"
    by (simp only: map_nth)
  finally have "mset (map url (links r)) = mset (map stored_url lnks)" .
  moreover have "\<not> is_sentinel_or_blank u \<longrightarrow>
      startswith (stored_url u) ''http://'' \<or> startswith (stored_url u) ''https://''" for u
    using normalized_prefixed [of u] by (simp add: stored_url_def)
  moreover have "is_sentinel_or_blank u \<longrightarrow> stored_url u = u" for u
    by (simp add: stored_url_def)
  ultimately show ?thesis
    using r by blast
qed

theorem stored_urls_witness:
  "(\<exists>r. check_platform_links first_pending (everywhere net_200) ''Medium'' [''unavailable'', ''ok.example''] = Inr r
        \<and> mset (map url (links r)) = mset (map stored_url [''unavailable'', ''ok.example'']))
   \<and> \<not> is_sentinel_or_blank ''ok.example''
   \<and> (startswith (stored_url ''ok.example'') ''http://'' \<or> startswith (stored_url ''ok.example'') ''https://'')
   \<and> is_sentinel_or_blank ''unavailable''
   \<and> stored_url ''unavailable'' = ''unavailable''"
  using stored_urls_of_platform [of first_pending "everywhere net_200" "''Medium''" "[''unavailable'', ''ok.example'']"]
    unavailable_skipped ok_example_probed
  by blast

text \<open>
  C6. For every URL and every behaviour of the network, \<open>check_url\<close> returns a pair and
  raises nothing; when a request it issued raised, the pair it returns says error.
\<close>

theorem check_url_absorbs_exceptions:
  "(\<exists>w a. outcome (check_url net u t) = Inr (w, a))
   \<and> (\<forall>rq \<in> set (requests (check_url net u t)). \<forall>e. net rq = Raises e
         \<longrightarrow> (\<exists>w. outcome (check_url net u t) = Inr (w, False)))"
  using check_url_returns [of net u t] check_url_raised_is_error [of _ net u t]
  by blast

theorem check_url_absorbs_witness:
  "(\<exists>w a. outcome (check_url net_timeout ''example.com'' 10) = Inr (w, a))
   \<and> hd (requests (check_url net_timeout ''example.com'' 10))
        \<in> set (requests (check_url net_timeout ''example.com'' 10))
   \<and> net_timeout (hd (requests (check_url net_timeout ''example.com'' 10))) = Raises Timeout
   \<and> (\<exists>w. outcome (check_url net_timeout ''example.com'' 10) = Inr (w, False))"
proof -
  have nb: "\<not> is_sentinel_or_blank ''example.com''"
    by code_simp
  have "requests (check_url net_timeout ''example.com'' 10) \<noteq> []"
    unfolding check_url_probed(1) [OF nb] by (simp add: net_timeout_def)
  then have hd_in: "hd (requests (check_url net_timeout ''example.com'' 10))
                      \<in> set (requests (check_url net_timeout ''example.com'' 10))"
    by simp
  have r: "net_timeout (hd (requests (check_url net_timeout ''example.com'' 10))) = Raises Timeout"
    by (simp add: net_timeout_def)
  from check_url_absorbs_exceptions [of net_timeout "''example.com''" 10] hd_in r
  show ?thesis
    by blast
qed

section \<open>Facts about the parser\<close>

lemma rstrip_prefix: "s = rstrip s @ rev (takeWhile isspace (rev s))"
proof -
  have "rev (takeWhile isspace (rev s) @ dropWhile isspace (rev s)) = rev (rev s)"
    by (simp only: takeWhile_dropWhile_id)
  then show ?thesis
    unfolding rstrip_def by (simp only: rev_append rev_rev_ident)
qed

lemma rstrip_rstrip: "rstrip (rstrip s) = rstrip s"
  by (simp add: rstrip_def dropWhile_dropWhile1)

lemma lstrip_head: "lstrip s \<noteq> [] \<Longrightarrow> \<not> isspace (hd (lstrip s))"
  unfolding lstrip_def by (rule hd_dropWhile)

lemma lstrip_strip: "lstrip (strip s) = strip s"
proof (cases "strip s = []")
  case True
  then show ?thesis by (simp add: lstrip_def)
next
  case False
  have y: "lstrip s = strip s @ rev (takeWhile isspace (rev (lstrip s)))"
    using rstrip_prefix [of "lstrip s"] by (simp add: strip_def)
  with False have ne: "lstrip s \<noteq> []"
    by auto
  from y False have "hd (lstrip s) = hd (strip s)"
    by (metis hd_append2)
  with lstrip_head [OF ne] have "\<not> isspace (hd (strip s))"
    by simp
  then show ?thesis
    unfolding lstrip_def by (simp add: dropWhile_eq_self_iff)
qed

lemma strip_strip: "strip (strip s) = strip s"
proof -
  have "strip (strip s) = rstrip (lstrip (strip s))"
    by (simp add: strip_def)
  also have "\<dots> = rstrip (strip s)"
    by (simp add: lstrip_strip)
  also have "\<dots> = strip s"
    by (simp add: strip_def rstrip_rstrip)
  finally show ?thesis .
qed

lemma strip_Nil: "strip [] = []"
  by (simp add: strip_def lstrip_def rstrip_def)

lemma parse_line_header:
  assumes "is_header raw"
  shows "parse_line st raw = Inr (AList.update (header_name raw) [] (fst st), Some (header_name raw))"
  using assms by (simp add: parse_line_def is_header_def header_name_def Let_def)

lemma parse_line_other:
  assumes "\<not> is_header raw"
  shows "parse_line st raw =
           (if is_link_line raw \<and> truthy (snd st) \<and> link_of raw \<noteq> []
            then (case append_link (fst st) (the (snd st)) (link_of raw) of
                    Inl e \<Rightarrow> Inl e | Inr ps \<Rightarrow> Inr (ps, snd st))
            else Inr st)"
proof (cases "strip raw = []")
  case True
  then show ?thesis
    by (simp add: parse_line_def is_link_line_def startswith_def)
next
  case False
  with assms show ?thesis
    by (auto simp: parse_line_def is_header_def is_link_line_def link_of_def Let_def)
qed

lemma list_all_update:
  "list_all P ps \<Longrightarrow> P (k, v) \<Longrightarrow> list_all P (AList.update k v ps)"
  by (induction ps) auto

lemma links_not_blank_update:
  assumes "links_not_blank ps" and "list_all (\<lambda>u. u \<noteq> [] \<and> strip u \<noteq> []) urls"
  shows "links_not_blank (AList.update k urls ps)"
  using assms unfolding links_not_blank_def by (simp add: list_all_update)

lemma links_not_blank_lookup:
  assumes "links_not_blank ps" and "map_of ps k = Some urls"
  shows "list_all (\<lambda>u. u \<noteq> [] \<and> strip u \<noteq> []) urls"
proof -
  from assms(2) have "(k, urls) \<in> set ps"
    by (rule map_of_SomeD)
  with assms(1) show ?thesis
    unfolding links_not_blank_def by (auto simp: list_all_iff)
qed

lemma link_of_not_blank: "link_of raw \<noteq> [] \<Longrightarrow> strip (link_of raw) \<noteq> []"
  by (simp add: link_of_def strip_strip)

lemma parse_line_invariant:
  assumes "current_is_key st" and "links_not_blank (fst st)"
  shows "\<exists>st'. parse_line st raw = Inr st' \<and> current_is_key st' \<and> links_not_blank (fst st')"
proof (cases "is_header raw")
  case True
  with assms(2) show ?thesis
    by (simp add: parse_line_header current_is_key_def links_not_blank_update update_conv')
next
  case False
  show ?thesis
  proof (cases "is_link_line raw \<and> truthy (snd st) \<and> link_of raw \<noteq> []")
    case no: False
    have "parse_line st raw = Inr st"
      by (simp only: parse_line_other [OF False] no if_False)
    with assms show ?thesis
      by blast
  next
    case yes: True
    then obtain k where k: "snd st = Some k"
      by (auto simp: truthy_def split: option.splits)
    with assms(1) obtain urls where urls: "map_of (fst st) k = Some urls"
      by (auto simp: current_is_key_def)
    have "list_all (\<lambda>u. u \<noteq> [] \<and> strip u \<noteq> []) (urls @ [link_of raw])"
      using links_not_blank_lookup [OF assms(2) urls] yes link_of_not_blank [of raw] by simp
    then have "links_not_blank (AList.update k (urls @ [link_of raw]) (fst st))"
      using assms(2) by (simp add: links_not_blank_update)
    with False yes k urls show ?thesis
      by (simp add: parse_line_other append_link_def current_is_key_def update_conv')
  qed
qed

lemma parse_lines_invariant:
  assumes "current_is_key st" and "links_not_blank (fst st)"
  shows "\<exists>st'. parse_lines st lns = Inr st' \<and> current_is_key st' \<and> links_not_blank (fst st')"
  using assms
proof (induction lns arbitrary: st)
  case Nil
  then show ?case by simp
next
  case (Cons raw lns)
  from parse_line_invariant [OF Cons.prems, of raw] obtain st1 where
    "parse_line st raw = Inr st1" "current_is_key st1" "links_not_blank (fst st1)"
    by blast
  with Cons.IH [of st1] show ?case
    by simp
qed

lemma parse_lines_start:
  "\<exists>st'. parse_lines ([], None) lns = Inr st' \<and> current_is_key st' \<and> links_not_blank (fst st')"
  by (rule parse_lines_invariant) (simp_all add: current_is_key_def links_not_blank_def)

lemma parse_lines_append:
  "parse_lines st (xs @ ys) =
     (case parse_lines st xs of Inl e \<Rightarrow> Inl e | Inr st' \<Rightarrow> parse_lines st' ys)"
  by (induction xs arbitrary: st) (auto split: sum.splits)

lemma links_of_Cons:
  "links_of (l # body) =
     (if is_link_line l \<and> link_of l \<noteq> [] then [link_of l] else []) @ links_of body"
  by (simp add: links_of_def)

lemma parse_lines_body:
  assumes "\<forall>l \<in> set body. \<not> is_header l" and "n \<noteq> []" and "map_of ps n = Some xs"
  shows "\<exists>ps'. parse_lines (ps, Some n) body = Inr (ps', Some n)
              \<and> map_of ps' n = Some (xs @ links_of body)"
  using assms
proof (induction body arbitrary: ps xs)
  case Nil
  then show ?case by (simp add: links_of_def)
next
  case (Cons l body)
  from Cons.prems(1) have nh: "\<not> is_header l" and rest: "\<forall>l \<in> set body. \<not> is_header l"
    by simp_all
  show ?case
  proof (cases "is_link_line l \<and> link_of l \<noteq> []")
    case True
    with Cons.prems(2,3) have step: "parse_line (ps, Some n) l
        = Inr (AList.update n (xs @ [link_of l]) ps, Some n)"
      by (simp add: parse_line_other [OF nh] truthy_def append_link_def)
    have "map_of (AList.update n (xs @ [link_of l]) ps) n = Some (xs @ [link_of l])"
      by (simp add: update_conv')
    moreover from True have "links_of (l # body) = link_of l # links_of body"
      by (simp add: links_of_def)
    ultimately show ?thesis
      using Cons.IH [OF rest Cons.prems(2), of "AList.update n (xs @ [link_of l]) ps" "xs @ [link_of l]"] step
      by simp
  next
    case False
    then have step: "parse_line (ps, Some n) l = Inr (ps, Some n)"
      by (auto simp: parse_line_other [OF nh])
    moreover from False have "links_of (l # body) = links_of body"
      by (auto simp: links_of_def)
    ultimately show ?thesis
      using Cons.IH [OF rest Cons.prems(2,3)] by simp
  qed
qed

lemma parse_line_other_key:
  assumes "cur \<noteq> Some n" and "current_is_key (ps, cur)"
    and "is_header l \<longrightarrow> header_name l \<noteq> n"
  shows "\<exists>ps' cur'. parse_line (ps, cur) l = Inr (ps', cur') \<and> cur' \<noteq> Some n
           \<and> current_is_key (ps', cur') \<and> map_of ps' n = map_of ps n"
proof (cases "is_header l")
  case True
  with assms(3) show ?thesis
    by (simp add: parse_line_header current_is_key_def update_conv')
next
  case False
  show ?thesis
  proof (cases "is_link_line l \<and> truthy cur \<and> link_of l \<noteq> []")
    case no: False
    have "parse_line (ps, cur) l = Inr (ps, cur)"
      using no by (simp only: parse_line_other [OF False] fst_conv snd_conv if_False)
    with assms(1,2) show ?thesis by simp
  next
    case yes: True
    then obtain k where k: "cur = Some k"
      by (auto simp: truthy_def split: option.splits)
    with assms(2) obtain urls where urls: "map_of ps k = Some urls"
      by (auto simp: current_is_key_def)
    from k assms(1) have kn: "k \<noteq> n" by simp
    from yes k urls have "parse_line (ps, cur) l = Inr (AList.update k (urls @ [link_of l]) ps, cur)"
      by (simp add: parse_line_other [OF False] append_link_def)
    with k kn assms(1) show ?thesis
      by (simp add: current_is_key_def update_conv')
  qed
qed

lemma parse_lines_other_key:
  assumes "cur \<noteq> Some n \<or> rest = [] \<or> is_header (hd rest)" and "current_is_key (ps, cur)"
    and "\<forall>l \<in> set rest. is_header l \<longrightarrow> header_name l \<noteq> n"
  shows "\<exists>ps' cur'. parse_lines (ps, cur) rest = Inr (ps', cur') \<and> map_of ps' n = map_of ps n"
  using assms
proof (induction rest arbitrary: ps cur)
  case Nil
  then show ?case by simp
next
  case (Cons l rest)
  from Cons.prems(3) have hl: "is_header l \<longrightarrow> header_name l \<noteq> n"
    and hr: "\<forall>l \<in> set rest. is_header l \<longrightarrow> header_name l \<noteq> n"
    by simp_all
  have "\<exists>ps1 cur1. parse_line (ps, cur) l = Inr (ps1, cur1) \<and> cur1 \<noteq> Some n
           \<and> current_is_key (ps1, cur1) \<and> map_of ps1 n = map_of ps n"
  proof (cases "is_header l")
    case True
    with hl show ?thesis
      by (simp add: parse_line_header current_is_key_def update_conv')
  next
    case False
    with Cons.prems(1) have "cur \<noteq> Some n" by simp
    from parse_line_other_key [OF this Cons.prems(2) hl] show ?thesis .
  qed
  then obtain ps1 cur1 where s1: "parse_line (ps, cur) l = Inr (ps1, cur1)" "cur1 \<noteq> Some n"
      "current_is_key (ps1, cur1)" "map_of ps1 n = map_of ps n"
    by blast
  from s1(2) have "cur1 \<noteq> Some n \<or> rest = [] \<or> is_header (hd rest)" by simp
  from Cons.IH [OF this s1(3) hr] s1(1,4) show ?case
    by simp
qed

lemma parse_lines_platform:
  assumes "is_header h" and "header_name h \<noteq> []"
    and "\<forall>l \<in> set body. \<not> is_header l"
    and "rest = [] \<or> is_header (hd rest)"
    and "\<forall>l \<in> set rest. is_header l \<longrightarrow> header_name l \<noteq> header_name h"
  shows "\<exists>ps cur. parse_lines ([], None) (before @ h # body @ rest) = Inr (ps, cur)
           \<and> map_of ps (header_name h) = Some (links_of body)"
proof -
  from parse_lines_start [of before] obtain ps0 cur0 where
    s0: "parse_lines ([], None) before = Inr (ps0, cur0)"
    by auto
  have s1: "parse_line (ps0, cur0) h = Inr (AList.update (header_name h) [] ps0, Some (header_name h))"
    using assms(1) by (simp add: parse_line_header)
  have "map_of (AList.update (header_name h) [] ps0) (header_name h) = Some []"
    by (simp add: update_conv')
  from parse_lines_body [OF assms(3,2) this] obtain ps2 where
    s2: "parse_lines (AList.update (header_name h) [] ps0, Some (header_name h)) body
           = Inr (ps2, Some (header_name h))"
    and m2: "map_of ps2 (header_name h) = Some (links_of body)"
    by auto
  have key: "current_is_key (ps2, Some (header_name h))"
    using m2 by (simp add: current_is_key_def)
  from assms(4) have "Some (header_name h) \<noteq> Some (header_name h) \<or> rest = [] \<or> is_header (hd rest)"
    by simp
  from parse_lines_other_key [OF this key assms(5)] obtain ps3 cur3 where
    s3: "parse_lines (ps2, Some (header_name h)) rest = Inr (ps3, cur3)"
    and m3: "map_of ps3 (header_name h) = map_of ps2 (header_name h)"
    by blast
  have "parse_lines ([], None) (before @ h # body @ rest) = Inr (ps3, cur3)"
    using s0 s1 s2 s3 by (simp add: parse_lines_append)
  with m2 m3 show ?thesis
    by simp
qed

lemma parse_input_file_opened:
  assumes "fs filename = Opened lns None" and "parse_lines ([], None) lns = Inr (ps, cur)"
  shows "parse_input_file str_e fs filename = ([], Inr ps)"
  using assms by (simp add: parse_input_file_def)

lemma parse_input_file_unreadable:
  assumes "fs filename = Unopened e \<or> (\<exists>lns. fs filename = Opened lns (Some e))"
  shows "parse_input_file str_e fs filename = parse_failed str_e filename e"
proof -
  from assms consider (a) "fs filename = Unopened e" | (b) lns where "fs filename = Opened lns (Some e)"
    by blast
  then show ?thesis
  proof cases
    case a
    then show ?thesis by (simp add: parse_input_file_def)
  next
    case b
    from parse_lines_start [of lns] obtain st where "parse_lines ([], None) lns = Inr st"
      by blast
    with b show ?thesis by (simp add: parse_input_file_def)
  qed
qed

lemma parse_input_file_returned:
  assumes "parse_input_file str_e fs filename = (printed, Inr ps)"
  shows "\<exists>lns cur. fs filename = Opened lns None \<and> parse_lines ([], None) lns = Inr (ps, cur)"
  using assms
  by (auto simp: parse_input_file_def parse_failed_def
           split: file_read.splits sum.splits option.splits if_splits)

lemma parse_failed_exits: "snd (parse_failed str_e filename e) = Inl (SystemExit 1)"
  by (simp add: parse_failed_def)

lemma parse_failed_message:
  "fst (parse_failed str_e filename e) =
     [println (RED @ (if e = FileNotFoundError
                      then ''Error: File '' @ [CHR 0x27] @ filename @ [CHR 0x27] @ '' tidak ditemukan!''
                      else ''Error membaca file: '' @ str_e e) @ RESET)]"
  by (simp add: parse_failed_def)

section \<open>The claims about the parser and the command line\<close>

text \<open>
  C7. As stated, the list of a platform is as long as the number of lines starting with \<open>>\<close>
  between its header and the next header. A \<open>>\<close> line with nothing after the mark is not
  appended (line 77): the file of the two lines \<open>A : 1\<close> and \<open>>\<close> gives \<open>A\<close> the empty list,
  though one \<open>>\<close> line follows the header.
\<close>

theorem empty_link_line_not_counted:
  "parse_input_file class_name (readable [''A : 1'', ''>'']) ''input.txt'' = ([], Inr [(''A'', [])])
   \<and> is_header ''A : 1'' \<and> header_name ''A : 1'' = ''A'' \<and> \<not> is_header ''>''
   \<and> length (filter is_link_line [''>'']) = 1"
  by code_simp

text \<open>
  C7, amended. Take a header with a non-empty name that no later header repeats, and the
  lines between it and the next header (or the end of the file). The list of that platform
  in the mapping returned holds, in order, the links of those lines that, trimmed, start
  with \<open>>\<close> and whose link (the mark, surrounding whitespace and triple backticks removed) is
  not empty; so its length is the number of such lines.
\<close>

theorem platform_urls_are_its_link_lines:
  assumes "fs filename = Opened (before @ h # body @ rest) None"
    and "is_header h" and "header_name h \<noteq> []"
    and "\<forall>l \<in> set body. \<not> is_header l"
    and "rest = [] \<or> is_header (hd rest)"
    and "\<forall>l \<in> set rest. is_header l \<longrightarrow> header_name l \<noteq> header_name h"
  shows "\<exists>ps. parse_input_file str_e fs filename = ([], Inr ps)
           \<and> map_of ps (header_name h) = Some (links_of body)
           \<and> length (links_of body) = length (filter (\<lambda>l. is_link_line l \<and> link_of l \<noteq> []) body)"
proof -
  from parse_lines_platform [OF assms(2-6), of before] obtain ps cur where
    p: "parse_lines ([], None) (before @ h # body @ rest) = Inr (ps, cur)"
    and m: "map_of ps (header_name h) = Some (links_of body)"
    by blast
  have "length (links_of body) = length (filter (\<lambda>l. is_link_line l \<and> link_of l \<noteq> []) body)"
    by (induction body) (simp_all add: links_of_def)
  with parse_input_file_opened [where fs = fs and filename = filename, OF assms(1) p, of str_e] m
  show ?thesis
    by blast
qed

theorem platform_urls_witness:
  "readable [''intro'', ''A : 3'', ''> x.example'', ''>'', '' > ```y.example```'', ''B : 1'', ''> z''] ''input.txt''
     = Opened ([''intro''] @ ''A : 3'' # [''> x.example'', ''>'', '' > ```y.example```''] @ [''B : 1'', ''> z'']) None
   \<and> is_header ''A : 3'' \<and> header_name ''A : 3'' = ''A''
   \<and> \<not> is_header ''> x.example'' \<and> \<not> is_header ''>'' \<and> \<not> is_header '' > ```y.example```''
   \<and> is_header ''B : 1'' \<and> header_name ''B : 1'' = ''B'' \<and> \<not> is_header ''> z''
   \<and> (\<exists>ps. parse_input_file class_name
              (readable [''intro'', ''A : 3'', ''> x.example'', ''>'', '' > ```y.example```'', ''B : 1'', ''> z''])
              ''input.txt'' = ([], Inr ps)
            \<and> map_of ps ''A'' = Some [''x.example'', ''y.example''])
   \<and> length (filter (\<lambda>l. is_link_line l \<and> link_of l \<noteq> []) [''> x.example'', ''>'', '' > ```y.example```'']) = 2"
proof -
  have f: "readable [''intro'', ''A : 3'', ''> x.example'', ''>'', '' > ```y.example```'', ''B : 1'', ''> z''] ''input.txt''
     = Opened ([''intro''] @ ''A : 3'' # [''> x.example'', ''>'', '' > ```y.example```''] @ [''B : 1'', ''> z'']) None"
    by (simp add: readable_def)
  have h: "is_header ''A : 3''" and n: "header_name ''A : 3'' = ''A''"
    and b1: "\<not> is_header ''> x.example''" and b2: "\<not> is_header ''>''"
    and b3: "\<not> is_header '' > ```y.example```''"
    and r1: "is_header ''B : 1''" and rn: "header_name ''B : 1'' = ''B''" and r2: "\<not> is_header ''> z''"
    by code_simp+
  have ne: "header_name ''A : 3'' \<noteq> []"
    by (simp add: n)
  have body: "\<forall>l \<in> set [''> x.example'', ''>'', '' > ```y.example```'']. \<not> is_header l"
    using b1 b2 b3 by simp
  have rest: "[''B : 1'', ''> z''] = [] \<or> is_header (hd [''B : 1'', ''> z''])"
    using r1 by simp
  have later: "\<forall>l \<in> set [''B : 1'', ''> z'']. is_header l \<longrightarrow> header_name l \<noteq> header_name ''A : 3''"
    using r2 by (simp add: rn n)
  have lo: "links_of [''> x.example'', ''>'', '' > ```y.example```''] = [''x.example'', ''y.example'']"
    by code_simp
  note t = platform_urls_are_its_link_lines [where fs = "readable [''intro'', ''A : 3'', ''> x.example'', ''>'', '' > ```y.example```'', ''B : 1'', ''> z'']"
      and filename = "''input.txt''", OF f h ne body rest later, of class_name, unfolded lo n]
  from t obtain ps where
    ps: "parse_input_file class_name
              (readable [''intro'', ''A : 3'', ''> x.example'', ''>'', '' > ```y.example```'', ''B : 1'', ''> z''])
              ''input.txt'' = ([], Inr ps)"
        "map_of ps ''A'' = Some [''x.example'', ''y.example'']"
    and len: "length [''x.example'', ''y.example'']
                = length (filter (\<lambda>l. is_link_line l \<and> link_of l \<noteq> []) [''> x.example'', ''>'', '' > ```y.example```''])"
    by blast
  have "length (filter (\<lambda>l. is_link_line l \<and> link_of l \<noteq> []) [''> x.example'', ''>'', '' > ```y.example```''])
          = length [''x.example'', ''y.example'']"
    using len by (rule sym)
  also have "\<dots> = 2"
    by simp
  finally have two: "length (filter (\<lambda>l. is_link_line l \<and> link_of l \<noteq> []) [''> x.example'', ''>'', '' > ```y.example```'']) = 2" .
  from f h n b1 b2 b3 r1 rn r2 ps two show ?thesis
    by blast
qed

text \<open>
  C9. When the file named on the command line cannot be opened or read, the program prints
  one message (that the file was not found, or the reading error) and the process exits
  with status 1; when \<open>parse_input_file\<close> returns a mapping without platforms, \<open>main\<close> prints
  a message and the process exits with status 1. The rest of \<open>main\<close> does not run.
\<close>

theorem fatal_input_errors:
  assumes "2 \<le> length argv"
  shows "(\<forall>e. fs (argv ! 1) = Unopened e \<or> (\<exists>lns. fs (argv ! 1) = Opened lns (Some e)) \<longrightarrow>
            script str_e fs argv continue =
              (banner
               @ [println (folder_glyph @ '' Membaca file: '' @ BOLD @ argv ! 1 @ RESET),
                  println (RED @ (if e = FileNotFoundError
                                  then ''Error: File '' @ [CHR 0x27] @ argv ! 1 @ [CHR 0x27] @ '' tidak ditemukan!''
                                  else ''Error membaca file: '' @ str_e e) @ RESET)],
               1))
       \<and> (\<forall>printed. parse_input_file str_e fs (argv ! 1) = (printed, Inr []) \<longrightarrow>
            script str_e fs argv continue =
              (banner
               @ [println (folder_glyph @ '' Membaca file: '' @ BOLD @ argv ! 1 @ RESET)]
               @ printed
               @ [println (RED @ ''Tidak ada data platform ditemukan!'' @ RESET)],
               1))"
proof (intro conjI allI impI)
  fix e
  assume "fs (argv ! 1) = Unopened e \<or> (\<exists>lns. fs (argv ! 1) = Opened lns (Some e))"
  from parse_input_file_unreadable [where fs = fs and filename = "argv ! 1", OF this, of str_e]
  have "parse_input_file str_e fs (argv ! 1) =
          (fst (parse_failed str_e (argv ! 1) e), Inl (SystemExit 1))"
    by (simp add: parse_failed_def)
  with assms show "script str_e fs argv continue =
              (banner
               @ [println (folder_glyph @ '' Membaca file: '' @ BOLD @ argv ! 1 @ RESET),
                  println (RED @ (if e = FileNotFoundError
                                  then ''Error: File '' @ [CHR 0x27] @ argv ! 1 @ [CHR 0x27] @ '' tidak ditemukan!''
                                  else ''Error membaca file: '' @ str_e e) @ RESET)],
               1)"
    by (simp add: script_def main_def parse_failed_message Let_def)
next
  fix printed
  assume "parse_input_file str_e fs (argv ! 1) = (printed, Inr [])"
  with assms show "script str_e fs argv continue =
              (banner
               @ [println (folder_glyph @ '' Membaca file: '' @ BOLD @ argv ! 1 @ RESET)]
               @ printed
               @ [println (RED @ ''Tidak ada data platform ditemukan!'' @ RESET)],
               1)"
    by (simp add: script_def main_def Let_def)
qed

theorem fatal_input_witness:
  "2 \<le> length [''hsc.py'', ''nofile.txt'']
   \<and> missing ([''hsc.py'', ''nofile.txt''] ! 1) = Unopened FileNotFoundError
   \<and> script class_name missing [''hsc.py'', ''nofile.txt''] stop =
        (banner
         @ [println (folder_glyph @ '' Membaca file: '' @ BOLD @ ''nofile.txt'' @ RESET),
            println (RED @ ''Error: File '' @ [CHR 0x27] @ ''nofile.txt'' @ [CHR 0x27] @ '' tidak ditemukan!'' @ RESET)],
         1)
   \<and> parse_input_file class_name (readable [''> x'']) ([''hsc.py'', ''input.txt''] ! 1) = ([], Inr [])
   \<and> script class_name (readable [''> x'']) [''hsc.py'', ''input.txt''] stop =
        (banner
         @ [println (folder_glyph @ '' Membaca file: '' @ BOLD @ ''input.txt'' @ RESET),
            println (RED @ ''Tidak ada data platform ditemukan!'' @ RESET)],
         1)"
proof -
  have l1: "2 \<le> length [''hsc.py'', ''nofile.txt'']" and l2: "2 \<le> length [''hsc.py'', ''input.txt'']"
    by simp_all
  have m: "missing ([''hsc.py'', ''nofile.txt''] ! 1) = Unopened FileNotFoundError"
    by (simp add: missing_def)
  have p: "parse_input_file class_name (readable [''> x'']) ([''hsc.py'', ''input.txt''] ! 1) = ([], Inr [])"
    by code_simp
  from fatal_input_errors [OF l1, of missing class_name stop] m
  have a: "script class_name missing [''hsc.py'', ''nofile.txt''] stop =
        (banner
         @ [println (folder_glyph @ '' Membaca file: '' @ BOLD @ ''nofile.txt'' @ RESET),
            println (RED @ ''Error: File '' @ [CHR 0x27] @ ''nofile.txt'' @ [CHR 0x27] @ '' tidak ditemukan!'' @ RESET)],
         1)"
    by simp
  from fatal_input_errors [OF l2, of "readable [''> x'']" class_name stop] p
  have b: "script class_name (readable [''> x'']) [''hsc.py'', ''input.txt''] stop =
        (banner
         @ [println (folder_glyph @ '' Membaca file: '' @ BOLD @ ''input.txt'' @ RESET),
            println (RED @ ''Tidak ada data platform ditemukan!'' @ RESET)],
         1)"
    by simp
  from l1 m a p b show ?thesis
    by blast
qed

text \<open>
  C10. Every link in every list of the mapping \<open>parse_input_file\<close> returns is non-empty and
  stays non-empty when trimmed, so the test \<open>not url.strip()\<close> of \<open>check_url\<close> is false on it;
  and a file that is read to its end yields a mapping.
\<close>

theorem parsed_links_never_blank:
  "(\<forall>printed ps. parse_input_file str_e fs filename = (printed, Inr ps) \<longrightarrow>
       (\<forall>entry \<in> set ps. \<forall>u \<in> set (snd entry). u \<noteq> [] \<and> strip u \<noteq> []))
   \<and> (\<forall>lns. fs filename = Opened lns None \<longrightarrow>
         (\<exists>ps. parse_input_file str_e fs filename = ([], Inr ps)))"
proof (intro conjI allI impI)
  fix printed ps
  assume "parse_input_file str_e fs filename = (printed, Inr ps)"
  from parse_input_file_returned [OF this] obtain lns cur where
    p: "parse_lines ([], None) lns = Inr (ps, cur)"
    by blast
  from parse_lines_start [of lns] p have "links_not_blank ps"
    by auto
  then show "\<forall>entry \<in> set ps. \<forall>u \<in> set (snd entry). u \<noteq> [] \<and> strip u \<noteq> []"
    by (simp add: links_not_blank_def list_all_iff)
next
  fix lns
  assume o: "fs filename = Opened lns None"
  from parse_lines_start [of lns] obtain ps cur where "parse_lines ([], None) lns = Inr (ps, cur)"
    by auto
  from parse_input_file_opened [where fs = fs and filename = filename, OF o this] show "\<exists>ps. parse_input_file str_e fs filename = ([], Inr ps)"
    by blast
qed

theorem parsed_links_witness:
  "parse_input_file class_name (readable [''A : 2'', ''> x'', ''>'']) ''input.txt'' = ([], Inr [(''A'', [''x''])])
   \<and> ''x'' \<noteq> [] \<and> strip ''x'' \<noteq> []"
proof -
  have p: "parse_input_file class_name (readable [''A : 2'', ''> x'', ''>'']) ''input.txt'' = ([], Inr [(''A'', [''x''])])"
    by code_simp
  from parsed_links_never_blank [of class_name "readable [''A : 2'', ''> x'', ''>'']" "''input.txt''"] p
  have "\<forall>entry \<in> set [(''A'', [''x''])]. \<forall>u \<in> set (snd entry). u \<noteq> [] \<and> strip u \<noteq> []"
    by blast
  with p show ?thesis
    by simp
qed

section \<open>Facts about the floats and the summary\<close>

lemma bit_length_0: "bit_length 0 = 0"
  by (simp add: bit_length.simps)

lemma bit_length_pos: "0 < n \<Longrightarrow> bit_length n = Suc (bit_length (n div 2))"
  by (subst bit_length.simps) simp

lemma bit_length_mono: "m \<le> n \<Longrightarrow> bit_length m \<le> bit_length n"
proof (induction n arbitrary: m rule: bit_length.induct)
  case (1 n)
  show ?case
  proof (cases "m = 0")
    case True
    then show ?thesis by (simp add: bit_length_0)
  next
    case False
    with "1.prems" have n: "n \<noteq> 0" by simp
    from "1.prems" have "m div 2 \<le> n div 2"
      by (rule div_le_mono)
    from "1.IH" [OF n this] False n show ?thesis
      by (simp add: bit_length_pos)
  qed
qed

lemma bit_length_double: "0 < n \<Longrightarrow> bit_length (2 * n) = Suc (bit_length n)"
  by (simp add: bit_length_pos)

lemma bit_length_shift: "0 < n \<Longrightarrow> bit_length (2 ^ k * n) = k + bit_length n"
proof (induction k)
  case 0
  then show ?case by simp
next
  case (Suc k)
  then have "0 < 2 ^ k * n" by simp
  from bit_length_double [OF this] Suc show ?case
    by (simp add: mult.assoc)
qed

lemma quantum_le:
  assumes "p \<le> 2 ^ k * q" and "0 < q"
  shows "quantum p q \<le> int k - 52"
proof -
  have "bit_length p \<le> bit_length (2 ^ k * q)"
    using assms(1) by (rule bit_length_mono)
  then have "int (bit_length p) - int (bit_length q) \<le> int k"
    using bit_length_shift [OF assms(2), of k] by simp
  then show ?thesis
    by (auto simp: quantum_def Let_def)
qed

lemma round_half_even_le: "round_half_even N D \<le> N div D + 1"
  by (simp add: round_half_even_def Let_def)

lemma below_twice:
  assumes "(b::nat) < B" and "1 \<le> a"
  shows "b * a + 1 < 2 * B * a"
proof -
  from assms(1) have "Suc b \<le> B" by simp
  then have "Suc b * a \<le> B * a" by (rule mult_le_mono1)
  with assms(2) have "b * a + 1 \<le> B * a" by simp
  moreover from assms have "0 < B * a" by simp
  ultimately show ?thesis by simp
qed

lemma nearest_double_small:
  assumes "p \<le> 2 ^ k * q" and "0 < q" and "k < 52"
  shows "\<exists>m x. nearest_double p q = Some (m, x) \<and> x \<le> 0 \<and> m \<le> 2 ^ k * 2 ^ nat (- x) + 1"
proof (cases "p = 0")
  case True
  then show ?thesis by (simp add: nearest_double_def)
next
  case False
  define x where "x = quantum p q"
  define m where "m = round_half_even (p * 2 ^ nat (- x)) q"
  from quantum_le [OF assms(1,2)] assms(3) have x: "x < 0"
    by (simp add: x_def)
  have "p * 2 ^ nat (- x) \<le> (2 ^ k * 2 ^ nat (- x)) * q"
    using assms(1) by (simp add: mult.commute mult.left_commute)
  then have "(p * 2 ^ nat (- x)) div q \<le> 2 ^ k * 2 ^ nat (- x)"
    using assms(2) by (metis div_le_mono nonzero_mult_div_cancel_right less_numeral_extra(3))
  with round_half_even_le [of "p * 2 ^ nat (- x)" q]
  have m: "m \<le> 2 ^ k * 2 ^ nat (- x) + 1"
    by (simp add: m_def)
  have "(2::nat) ^ k < 2 ^ 1023"
    by (rule power_strict_increasing) (use assms(3) in simp_all)
  from below_twice [OF this, of "2 ^ nat (- x)"]
  have "2 ^ k * 2 ^ nat (- x) + 1 < (2::nat) ^ 1024 * 2 ^ nat (- x)"
    by simp
  with m have "m < 2 ^ 1024 * 2 ^ nat (- x)"
    by simp
  with x False have "nearest_double p q = Some (m, x)"
    by (simp add: nearest_double_def x_def [symmetric] m_def [symmetric] Let_def)
  with x m show ?thesis
    by simp
qed

lemma digit_chars: "map digit_char [0, 1, 2, 3, 4, 5, 6, 7, 8, 9] = ''0123456789''"
  by code_simp

lemma digit_char_is_digit:
  assumes "d < 10"
  shows "is_digit (digit_char d)"
proof -
  from assms have "d \<in> set [0, 1, 2, 3, 4, 5, 6, 7, 8, 9]"
    by auto
  then have "digit_char d \<in> set (map digit_char [0, 1, 2, 3, 4, 5, 6, 7, 8, 9])"
    unfolding set_map by (rule imageI)
  then show ?thesis
    unfolding digit_chars by (simp only: is_digit_def)
qed

lemma str_nat_digits: "str_nat n \<noteq> [] \<and> list_all is_digit (str_nat n)"
proof (induction n rule: str_nat.induct)
  case (1 n)
  show ?case
  proof (cases "n < 10")
    case True
    then show ?thesis
      by (subst (1 2) str_nat.simps) (simp add: digit_char_is_digit)
  next
    case False
    with "1.IH" show ?thesis
      by (subst (1 2) str_nat.simps) (simp add: digit_char_is_digit)
  qed
qed

lemma str_nat_one_digit: "n < 10 \<Longrightarrow> str_nat n = [digit_char n]"
  by (subst str_nat.simps) simp

lemma success_rate_7_of_10: "success_rate 7 10 = Inr ''Success Rate    : 70.0%''"
proof -
  have bl: "bit_length 7 = 3" "bit_length 10 = 4"
    by (simp_all add: bit_length.simps)
  have q: "quantum 7 10 = - 53"
    by (simp add: quantum_def bl)
  have nd: "nearest_double 7 10 = Some (6305039478318694, - 53)"
    by (simp add: nearest_double_def q round_half_even_def Let_def)
  have td: "truediv 7 10 = Inr (Finite False 6305039478318694 (- 53))"
    by (simp add: truediv_def nd)
  have bl2: "bit_length 630503947831869400 = 60" "bit_length 9007199254740992 = 54"
    by (simp_all add: bit_length.simps)
  have q2: "quantum 630503947831869400 9007199254740992 = - 46"
    by (simp add: quantum_def bl2)
  have nd2: "nearest_double 630503947831869400 9007199254740992 = Some (4925812092436480, - 46)"
    by (simp add: nearest_double_def q2 round_half_even_def Let_def)
  have fm: "float_mul (Finite False 6305039478318694 (- 53)) (Finite False 100 0)
              = Finite False 4925812092436480 (- 46)"
    by (simp add: nd2)
  have dc: "digit_char 7 = CHR ''7''" "digit_char 0 = CHR ''0''"
    by code_simp+
  have sn: "str_nat 70 = ''70''" "str_nat 0 = ''0''"
    by (simp_all add: str_nat.simps dc)
  have "round_half_even (10 * 4925812092436480) (2 ^ nat (- (- 46))) = 700"
    by (simp add: round_half_even_def Let_def)
  then have fmt: "format_1f (Finite False 4925812092436480 (- 46)) = ''70.0''"
    by (simp add: format_1f_def Let_def sn)
  show ?thesis
    by (simp add: success_rate_def td nd2 fmt)
qed

lemma round_half_even_error:
  assumes "0 < D"
  shows "\<bar>real (round_half_even N D) - real N / real D\<bar> \<le> 1 / 2"
proof -
  define k where "k = N div D"
  define r where "r = N mod D"
  have N: "real N = real k * real D + real r"
    unfolding k_def r_def by (metis mult.commute div_mult_mod_eq of_nat_add of_nat_mult)
  have rD: "r < D"
    using assms by (simp add: r_def)
  have frac: "real N / real D = real k + real r / real D"
    using assms by (simp add: N field_simps)
  consider (down) "2 * r < D" | (up) "D < 2 * r" | (tie) "2 * r = D"
    by linarith
  then show ?thesis
  proof cases
    case down
    then have "round_half_even N D = k"
      by (simp add: round_half_even_def k_def r_def Let_def)
    moreover from down assms have "real r / real D \<le> 1 / 2"
      by (simp add: field_simps)
    ultimately show ?thesis
      by (simp add: frac)
  next
    case up
    then have "round_half_even N D = k + 1"
      by (simp add: round_half_even_def k_def r_def Let_def)
    moreover from up assms have "1 / 2 \<le> real r / real D"
      by (simp add: field_simps)
    moreover from rD assms have "real r / real D \<le> 1"
      by (simp add: field_simps)
    ultimately show ?thesis
      by (simp add: frac)
  next
    case tie
    then have res: "round_half_even N D = k \<or> round_half_even N D = k + 1"
      by (simp add: round_half_even_def k_def r_def Let_def)
    from tie assms have half: "real r / real D = 1 / 2"
      by (simp add: field_simps)
    have f2: "real N / real D = real k + 1 / 2"
      by (simp only: frac half)
    from res show ?thesis
      by (auto simp: f2)
  qed
qed

lemma nearest_double_error:
  assumes "p \<le> 2 ^ k * q" and "0 < q" and "k < 52"
  shows "\<exists>m x. nearest_double p q = Some (m, x) \<and> x \<le> 0 \<and> m \<le> 2 ^ k * 2 ^ nat (- x) + 1
           \<and> \<bar>real m / 2 ^ nat (- x) - real p / real q\<bar> \<le> 1 / 2 ^ (53 - k)"
proof (cases "p = 0")
  case True
  then show ?thesis by (simp add: nearest_double_def)
next
  case False
  define x where "x = quantum p q"
  define s where "s = nat (- x)"
  define m where "m = round_half_even (p * 2 ^ s) q"
  from quantum_le [OF assms(1,2)] have xk: "x \<le> int k - 52"
    by (simp add: x_def)
  with assms(3) have x: "x < 0"
    by simp
  from nearest_double_small [OF assms] False x
  have nd: "nearest_double p q = Some (m, x)" and mb: "m \<le> 2 ^ k * 2 ^ nat (- x) + 1"
    by (auto simp: nearest_double_def x_def [symmetric] m_def s_def Let_def split: if_splits)
  from xk assms(3) have sk: "52 - k \<le> s"
    by (simp add: s_def)
  have "\<bar>real m - real (p * 2 ^ s) / real q\<bar> \<le> 1 / 2"
    unfolding m_def using assms(2) by (rule round_half_even_error)
  then have a: "\<bar>real m - real p / real q * 2 ^ s\<bar> \<le> 1 / 2"
    by simp
  have e: "real m / 2 ^ s - real p / real q = (real m - real p / real q * 2 ^ s) / 2 ^ s"
    by (simp add: diff_divide_distrib)
  have "\<bar>real m / 2 ^ s - real p / real q\<bar> = \<bar>real m - real p / real q * 2 ^ s\<bar> / 2 ^ s"
    unfolding e by simp
  also have "\<dots> \<le> (1 / 2) / 2 ^ s"
    using a by (rule divide_right_mono) simp
  also have "\<dots> = 1 / (2 * 2 ^ s)"
    by simp
  also have "\<dots> = 1 / 2 ^ Suc s"
    by simp
  also have "\<dots> \<le> 1 / 2 ^ (53 - k)"
  proof -
    from sk assms(3) have "53 - k \<le> Suc s" by simp
    then have "(2::real) ^ (53 - k) \<le> 2 ^ Suc s"
      by (rule power_increasing) simp
    then show ?thesis
      by (simp add: frac_le del: power_Suc)
  qed
  finally have "\<bar>real m / 2 ^ s - real p / real q\<bar> \<le> 1 / 2 ^ (53 - k)" .
  with nd x mb show ?thesis
    by (simp add: s_def)
qed

lemma truediv_error:
  assumes "0 \<le> a" and "a \<le> t" and "0 < t"
  shows "\<exists>m x. truediv a t = Inr (Finite False m x) \<and> x \<le> 0 \<and> m \<le> 2 ^ nat (- x) + 1
           \<and> \<bar>real m / 2 ^ nat (- x) - real_of_int a / real_of_int t\<bar> \<le> 1 / 2 ^ 53"
proof -
  have "nat \<bar>a\<bar> \<le> 2 ^ 0 * nat \<bar>t\<bar>" and "0 < nat \<bar>t\<bar>" and "(0::nat) < 52"
    using assms by simp_all
  from nearest_double_error [OF this] obtain m x where
    nd: "nearest_double (nat \<bar>a\<bar>) (nat \<bar>t\<bar>) = Some (m, x)" "x \<le> 0" "m \<le> 2 ^ nat (- x) + 1"
    and err: "\<bar>real m / 2 ^ nat (- x) - real (nat \<bar>a\<bar>) / real (nat \<bar>t\<bar>)\<bar> \<le> 1 / 2 ^ (53 - 0)"
    by auto
  from assms have "real (nat \<bar>a\<bar>) = real_of_int a" "real (nat \<bar>t\<bar>) = real_of_int t"
    by simp_all
  with err have "\<bar>real m / 2 ^ nat (- x) - real_of_int a / real_of_int t\<bar> \<le> 1 / 2 ^ 53"
    by simp
  with nd assms show ?thesis
    by (simp add: truediv_def)
qed

lemma times_100_error:
  assumes "x \<le> 0" and "m \<le> 2 ^ nat (- x) + 1"
  shows "\<exists>m' x'. float_mul (Finite False m x) (Finite False 100 0) = Finite False m' x' \<and> x' \<le> 0
           \<and> \<bar>real m' / 2 ^ nat (- x') - 100 * (real m / 2 ^ nat (- x))\<bar> \<le> 1 / 2 ^ 45"
proof -
  have one: "(1::nat) \<le> 2 ^ nat (- x)"
    by simp
  from assms(2) one have "m \<le> 2 * 2 ^ nat (- x)"
    by linarith
  then have "m * 100 \<le> 200 * 2 ^ nat (- x)"
    by simp
  also have "\<dots> \<le> 2 ^ 8 * 2 ^ nat (- x)"
    by simp
  finally have "m * 100 * 2 ^ nat x \<le> 2 ^ 8 * 2 ^ nat (- x)"
    using assms(1) by simp
  moreover have "(0::nat) < 2 ^ nat (- x)" and "(8::nat) < 52"
    by simp_all
  ultimately obtain m' x' where
    nd: "nearest_double (m * 100 * 2 ^ nat x) (2 ^ nat (- x)) = Some (m', x')" "x' \<le> 0"
    and err: "\<bar>real m' / 2 ^ nat (- x') - real (m * 100 * 2 ^ nat x) / real (2 ^ nat (- x))\<bar>
                \<le> 1 / 2 ^ (53 - 8)"
    using nearest_double_error [of "m * 100 * 2 ^ nat x" 8 "2 ^ nat (- x)"] by blast
  from assms(1) have nx: "nat x = 0"
    by simp
  have eq: "real (m * 100 * 2 ^ nat x) / real (2 ^ nat (- x)) = 100 * (real m / 2 ^ nat (- x))"
    by (simp add: nx)
  from err have "\<bar>real m' / 2 ^ nat (- x') - 100 * (real m / 2 ^ nat (- x))\<bar> \<le> 1 / 2 ^ 45"
    unfolding eq by simp
  with nd show ?thesis
    by simp
qed

lemma format_1f_error:
  assumes "x \<le> 0"
  shows "\<exists>k. format_1f (Finite False m x) = one_decimal k
           \<and> \<bar>real k - 10 * (real m / 2 ^ nat (- x))\<bar> \<le> 1 / 2"
proof -
  define k where
    "k = (if 0 \<le> x then 10 * m * 2 ^ nat x else round_half_even (10 * m) (2 ^ nat (- x)))"
  have "format_1f (Finite False m x) = one_decimal k"
    by (simp add: format_1f_def one_decimal_def k_def [symmetric] Let_def str_nat_one_digit)
  moreover have "\<bar>real k - 10 * (real m / 2 ^ nat (- x))\<bar> \<le> 1 / 2"
  proof (cases "0 \<le> x")
    case True
    with assms have "x = 0" by simp
    then show ?thesis by (simp add: k_def)
  next
    case False
    then have "k = round_half_even (10 * m) (2 ^ nat (- x))"
      by (simp add: k_def)
    moreover have "\<bar>real (round_half_even (10 * m) (2 ^ nat (- x))) - real (10 * m) / real (2 ^ nat (- x))\<bar> \<le> 1 / 2"
      by (rule round_half_even_error) simp
    ultimately show ?thesis by simp
  qed
  ultimately show ?thesis by blast
qed

lemma three_roundings:
  fixes v1 v2 r k :: real
  assumes "\<bar>v1 - r\<bar> \<le> e1" and "\<bar>v2 - 100 * v1\<bar> \<le> e2" and "\<bar>k - 10 * v2\<bar> \<le> 1 / 2"
  shows "\<bar>k / 10 - 100 * r\<bar> \<le> 1 / 20 + e2 + 100 * e1"
  using assms by linarith

lemma success_rate_accurate:
  assumes "0 \<le> a" and "a \<le> t" and "0 < t"
  shows "\<exists>k. success_rate a t = Inr (''Success Rate    : '' @ one_decimal k @ ''%'')
           \<and> \<bar>real k / 10 - 100 * real_of_int a / real_of_int t\<bar> \<le> 1 / 20 + 1 / 2 ^ 44"
proof -
  from truediv_error [OF assms] obtain m x where
    d: "truediv a t = Inr (Finite False m x)" and x: "x \<le> 0" and m: "m \<le> 2 ^ nat (- x) + 1"
    and e1: "\<bar>real m / 2 ^ nat (- x) - real_of_int a / real_of_int t\<bar> \<le> 1 / 2 ^ 53"
    by blast
  from times_100_error [OF x m] obtain m' x' where
    p: "float_mul (Finite False m x) (Finite False 100 0) = Finite False m' x'" and x': "x' \<le> 0"
    and e2: "\<bar>real m' / 2 ^ nat (- x') - 100 * (real m / 2 ^ nat (- x))\<bar> \<le> 1 / 2 ^ 45"
    by blast
  from format_1f_error [OF x', of m'] obtain k where
    f: "format_1f (Finite False m' x') = one_decimal k"
    and e3: "\<bar>real k - 10 * (real m' / 2 ^ nat (- x'))\<bar> \<le> 1 / 2"
    by blast
  define v1 where "v1 = real m / 2 ^ nat (- x)"
  define v2 where "v2 = real m' / 2 ^ nat (- x')"
  define r where "r = real_of_int a / real_of_int t"
  from e1 e2 e3 have "\<bar>v1 - r\<bar> \<le> 1 / 2 ^ 53" "\<bar>v2 - 100 * v1\<bar> \<le> 1 / 2 ^ 45" "\<bar>real k - 10 * v2\<bar> \<le> 1 / 2"
    by (simp_all add: v1_def v2_def r_def)
  then have "\<bar>real k / 10 - 100 * r\<bar> \<le> 1 / 20 + 1 / 2 ^ 45 + 100 * (1 / 2 ^ 53)"
    by (rule three_roundings)
  also have "\<dots> \<le> 1 / 20 + 1 / 2 ^ 44"
    by simp
  finally have "\<bar>real k / 10 - 100 * real_of_int a / real_of_int t\<bar> \<le> 1 / 20 + 1 / 2 ^ 44"
    by (simp add: r_def)
  moreover from assms(3) d p f
  have "success_rate a t = Inr (''Success Rate    : '' @ one_decimal k @ ''%'')"
    by (simp add: success_rate_def)
  ultimately show ?thesis
    by blast
qed

lemma one_decimal_shape:
  "\<exists>ds d. one_decimal k = ds @ ''.'' @ [d] \<and> ds \<noteq> [] \<and> list_all is_digit ds \<and> is_digit d"
  using str_nat_digits [of "k div 10"] digit_char_is_digit [of "k mod 10"]
  by (simp add: one_decimal_def)

lemma record_result_nonneg:
  assumes "record_result r fut = Inr r'" and "0 \<le> active r" and "0 \<le> error r"
  shows "0 \<le> active r' \<and> 0 \<le> error r'"
  using assms by (auto simp: record_result_def split: sum.splits prod.splits if_splits)

lemma collect_nonneg:
  assumes "collect r futs = Inr r'" and "0 \<le> active r" and "0 \<le> error r"
  shows "0 \<le> active r' \<and> 0 \<le> error r'"
  using assms
proof (induction futs arbitrary: r)
  case Nil
  then show ?case by simp
next
  case (Cons fut futs)
  from Cons.prems(1) obtain r1 where r1: "record_result r fut = Inr r1" "collect r1 futs = Inr r'"
    by (auto split: sum.splits)
  from record_result_nonneg [OF r1(1) Cons.prems(2,3)] Cons.IH [OF r1(2)] show ?case
    by simp
qed

lemma produced_counts_add_up:
  assumes "produced r"
  shows "counts_add_up r"
proof -
  from assms obtain sched net pf lnks where c: "check_platform_links sched net pf lnks = Inr r"
    by (auto simp: produced_def)
  define futs where "futs = map (\<lambda>i. check_url (net i) (lnks ! i) 10) [0..<length lnks]"
  have "\<forall>fut \<in> set futs. \<exists>w a. outcome fut = Inr (w, a)"
    by (auto simp: futs_def check_url_returns)
  then have fin: "\<forall>fut \<in> set (as_completed sched futs). \<exists>w a. outcome fut = Inr (w, a)"
    using as_completed_set [of sched futs] by blast
  from c have col: "collect \<lparr>platform = pf, total_n = int (length lnks), active = 0, error = 0, links = []\<rparr>
                  (as_completed sched futs) = Inr r"
    by (simp add: check_platform_links_def futs_def)
  from collect_nonneg [OF col] have nn: "0 \<le> active r" "0 \<le> error r"
    by simp_all
  have len: "length futs = length lnks"
    by (simp add: futs_def)
  from collect_counts [OF fin,
      of "\<lparr>platform = pf, total_n = int (length lnks), active = 0, error = 0, links = []\<rparr>"] col
  have "active r + error r = total_n r"
    by (auto simp: as_completed_length len)
  with nn show ?thesis
    by (simp add: counts_add_up_def)
qed

lemma totals_of_results:
  assumes "list_all counts_add_up rs"
  shows "0 \<le> sum_list (map active rs) \<and> sum_list (map active rs) \<le> sum_list (map total_n rs)"
  using assms by (induction rs) (auto simp: counts_add_up_def)

lemma display_results_rate:
  assumes "success_rate (sum_list (map active rs)) (sum_list (map total_n rs)) = Inr rate"
  shows "\<exists>before. display_results rs =
           (before @ [println rate, println (BOLD @ replicate 70 CHR ''='' @ RESET @ [CHR 0x0A])], Inr ())"
  using assms by (simp add: display_results_def Let_def)

lemma produced_A: "produced result_A"
proof -
  have "check_url (everywhere net_200 0) ''unavailable'' 10
          = \<lparr>requests = [], outcome = Inr (''unavailable'', False)\<rparr>"
    using unavailable_skipped by (rule check_url_skipped)
  then have "check_platform_links first_pending (everywhere net_200) ''A'' [''unavailable''] = Inr result_A"
    by (simp add: check_platform_links_def as_completed_Cons as_completed_Nil record_result_def result_A_def)
  then show ?thesis
    unfolding produced_def by blast
qed

lemma produced_B: "produced result_B"
proof -
  have nb: "\<not> is_sentinel_or_blank ''https://ok.example''"
    by code_simp
  have n: "normalized ''https://ok.example'' = ''https://ok.example''"
    by code_simp
  have "outcome (check_url (everywhere net_200 0) ''https://ok.example'' 10) = Inr (''https://ok.example'', True)"
    unfolding check_url_probed(2) [OF nb] n by (simp add: everywhere_def net_200_def)
  then have "check_platform_links first_pending (everywhere net_200) ''B'' [''https://ok.example''] = Inr result_B"
    by (simp add: check_platform_links_def as_completed_Cons as_completed_Nil record_result_def result_B_def)
  then show ?thesis
    unfolding produced_def by blast
qed

lemma produced_C: "produced result_C"
proof -
  have "check_platform_links first_pending (everywhere net_200) ''C'' [] = Inr result_C"
    by (simp add: check_platform_links_def as_completed_Nil result_C_def)
  then show ?thesis
    unfolding produced_def by blast
qed

text \<open>
  C8. In the summary of results that \<open>check_platform_links\<close> produced: when the total is
  positive, the line printed for the rate is \<open>Success Rate    : \<close> followed by a decimal with
  exactly one digit after the point and \<open>%\<close>, and that decimal is \<open>active / total * 100\<close> up to
  the rounding of the formatting and of the two float operations; when the total is zero
  the line is the literal \<open>0%\<close>, and the division, which would raise on a zero divisor, is
  not evaluated. Ten links of which seven are active give \<open>70.0%\<close>.
\<close>

theorem summary_success_rate:
  assumes "\<forall>r \<in> set all_results. produced r"
  shows "(0 < sum_list (map total_n all_results) \<longrightarrow>
            (\<exists>k before ds d.
               display_results all_results =
                 (before @ [println (''Success Rate    : '' @ one_decimal k @ ''%''),
                            println (BOLD @ replicate 70 CHR ''='' @ RESET @ [CHR 0x0A])], Inr ())
               \<and> one_decimal k = ds @ ''.'' @ [d] \<and> ds \<noteq> [] \<and> list_all is_digit ds \<and> is_digit d
               \<and> \<bar>real k / 10 - 100 * real_of_int (sum_list (map active all_results))
                                   / real_of_int (sum_list (map total_n all_results))\<bar>
                    \<le> 1 / 20 + 1 / 2 ^ 44))
       \<and> (sum_list (map total_n all_results) = 0 \<longrightarrow>
            (\<exists>before.
               display_results all_results =
                 (before @ [println ''0%'',
                            println (BOLD @ replicate 70 CHR ''='' @ RESET @ [CHR 0x0A])], Inr ()))
            \<and> truediv (sum_list (map active all_results)) (sum_list (map total_n all_results))
                 = Inl ZeroDivisionError)
       \<and> (sum_list (map total_n all_results) = 10 \<and> sum_list (map active all_results) = 7 \<longrightarrow>
            (\<exists>before.
               display_results all_results =
                 (before @ [println ''Success Rate    : 70.0%'',
                            println (BOLD @ replicate 70 CHR ''='' @ RESET @ [CHR 0x0A])], Inr ())))"
proof (intro conjI impI)
  assume pos: "0 < sum_list (map total_n all_results)"
  from assms have "list_all counts_add_up all_results"
    by (simp add: list_all_iff produced_counts_add_up)
  from totals_of_results [OF this] have a: "0 \<le> sum_list (map active all_results)"
    and b: "sum_list (map active all_results) \<le> sum_list (map total_n all_results)"
    by simp_all
  from success_rate_accurate [OF a b pos] obtain k where
    k: "success_rate (sum_list (map active all_results)) (sum_list (map total_n all_results))
          = Inr (''Success Rate    : '' @ one_decimal k @ ''%'')"
    and acc: "\<bar>real k / 10 - 100 * real_of_int (sum_list (map active all_results))
                          / real_of_int (sum_list (map total_n all_results))\<bar> \<le> 1 / 20 + 1 / 2 ^ 44"
    by blast
  from display_results_rate [OF k] one_decimal_shape [of k] acc
  show "\<exists>k before ds d.
               display_results all_results =
                 (before @ [println (''Success Rate    : '' @ one_decimal k @ ''%''),
                            println (BOLD @ replicate 70 CHR ''='' @ RESET @ [CHR 0x0A])], Inr ())
               \<and> one_decimal k = ds @ ''.'' @ [d] \<and> ds \<noteq> [] \<and> list_all is_digit ds \<and> is_digit d
               \<and> \<bar>real k / 10 - 100 * real_of_int (sum_list (map active all_results))
                                   / real_of_int (sum_list (map total_n all_results))\<bar>
                    \<le> 1 / 20 + 1 / 2 ^ 44"
    by blast
next
  assume z: "sum_list (map total_n all_results) = 0"
  then have "success_rate (sum_list (map active all_results)) (sum_list (map total_n all_results)) = Inr ''0%''"
    by (simp add: success_rate_def)
  from display_results_rate [OF this]
  show "\<exists>before. display_results all_results =
          (before @ [println ''0%'', println (BOLD @ replicate 70 CHR ''='' @ RESET @ [CHR 0x0A])], Inr ())" .
  from z show "truediv (sum_list (map active all_results)) (sum_list (map total_n all_results))
                 = Inl ZeroDivisionError"
    by (simp add: truediv_def)
next
  assume "sum_list (map total_n all_results) = 10 \<and> sum_list (map active all_results) = 7"
  then have "success_rate (sum_list (map active all_results)) (sum_list (map total_n all_results))
               = Inr ''Success Rate    : 70.0%''"
    by (simp add: success_rate_7_of_10)
  from display_results_rate [OF this]
  show "\<exists>before. display_results all_results =
          (before @ [println ''Success Rate    : 70.0%'',
                     println (BOLD @ replicate 70 CHR ''='' @ RESET @ [CHR 0x0A])], Inr ())" .
qed

theorem summary_success_rate_witness:
  "produced result_A \<and> produced result_B
   \<and> sum_list (map total_n [result_B, result_B, result_B, result_B, result_B, result_B, result_B,
                             result_A, result_A, result_A]) = 10
   \<and> sum_list (map active [result_B, result_B, result_B, result_B, result_B, result_B, result_B,
                            result_A, result_A, result_A]) = 7
   \<and> (\<exists>before. display_results [result_B, result_B, result_B, result_B, result_B, result_B, result_B,
                                  result_A, result_A, result_A] =
         (before @ [println ''Success Rate    : 70.0%'',
                    println (BOLD @ replicate 70 CHR ''='' @ RESET @ [CHR 0x0A])], Inr ()))
   \<and> produced result_C
   \<and> sum_list (map total_n [result_C]) = 0
   \<and> (\<exists>before. display_results [result_C] =
         (before @ [println ''0%'',
                    println (BOLD @ replicate 70 CHR ''='' @ RESET @ [CHR 0x0A])], Inr ()))"
proof -
  have ab: "\<forall>r \<in> set [result_B, result_B, result_B, result_B, result_B, result_B, result_B,
                        result_A, result_A, result_A]. produced r"
    and c: "\<forall>r \<in> set [result_C]. produced r"
    by (simp_all add: produced_A produced_B produced_C)
  have tot: "sum_list (map total_n [result_B, result_B, result_B, result_B, result_B, result_B, result_B,
                                   result_A, result_A, result_A]) = 10"
    and act: "sum_list (map active [result_B, result_B, result_B, result_B, result_B, result_B, result_B,
                                  result_A, result_A, result_A]) = 7"
    and zero: "sum_list (map total_n [result_C]) = 0"
    by (simp_all add: result_A_def result_B_def result_C_def)
  from summary_success_rate [OF ab] tot act
  have seventy: "\<exists>before. display_results [result_B, result_B, result_B, result_B, result_B, result_B,
                                            result_B, result_A, result_A, result_A] =
         (before @ [println ''Success Rate    : 70.0%'',
                    println (BOLD @ replicate 70 CHR ''='' @ RESET @ [CHR 0x0A])], Inr ())"
    by blast
  from summary_success_rate [OF c] zero
  have none: "\<exists>before. display_results [result_C] =
         (before @ [println ''0%'',
                    println (BOLD @ replicate 70 CHR ''='' @ RESET @ [CHR 0x0A])], Inr ())"
    by blast
  from produced_A produced_B produced_C tot act zero seventy none show ?thesis
    by blast
qed

end
